theory Spec2Isabelle
  imports Main "HOL-Library.Monad_Syntax"
begin

unbundle bit_operations_syntax

section \<open>Machine integers, characters and errors\<close>

text \<open>
  The source (\<^verbatim>\<open>include/amvsimpstr.h\<close>) computes lengths in \<^verbatim>\<open>int\<close> and
  \<^verbatim>\<open>UINT\<close>, both 32 bits wide.  Lengths are modelled as \<^typ>\<open>int\<close>; the
  conversions below are written at every place of the source where a sum of lengths can
  leave the 32-bit range.  Reference counts (\<^verbatim>\<open>long\<close>) count handles and stay far from
  the limits; they are plain integers.
\<close>

definition INT_MAX :: int where
  "INT_MAX = 2147483647"

definition to_int :: "int \<Rightarrow> int" where
  \<comment> \<open>the value of a 32-bit \<^verbatim>\<open>int\<close> after wrap-around\<close>
  "to_int x = (x + 2147483648) mod 4294967296 - 2147483648"

definition to_UINT :: "int \<Rightarrow> int" where
  \<comment> \<open>conversion to the 32-bit \<^verbatim>\<open>UINT\<close>\<close>
  "to_UINT x = x mod 4294967296"

definition c_div :: "int \<Rightarrow> int \<Rightarrow> int" where
  \<comment> \<open>the \<^verbatim>\<open>/\<close> of C++ on integers truncates towards zero\<close>
  "c_div a b = sgn a * sgn b * (\<bar>a\<bar> div \<bar>b\<bar>)"

definition to_size_t :: "int \<Rightarrow> nat" where
  \<comment> \<open>conversion of an \<^verbatim>\<open>int\<close> to \<^verbatim>\<open>size_t\<close> (64 bits)\<close>
  "to_size_t x = nat (x mod 18446744073709551616)"

definition NUL :: char where
  "NUL = CHR 0x00"

text \<open>
  \<^verbatim>\<open>AmvThrow("Invalid arguments")\<close> and \<^verbatim>\<open>ThrowMemoryException\<close> are the two
  exceptions of the source.  \<open>Fault\<close> stands for the places where the C++ has no defined
  behaviour: a dangling or out-of-range pointer, \<^verbatim>\<open>memcpy\<close> on overlapping ranges.
  A result is either a normal return or a throw together with the state at the throw.
\<close>

datatype error = OutOfMemory | InvalidArgument | Fault

datatype ('a, 's) result = Return 'a | Throw error 's

section \<open>The buffer header and the store\<close>

type_synonym addr = nat
type_synonym mgr = nat

text \<open>
  \<^verbatim>\<open>struct BStringData\<close> with the payload that follows the header in memory
  (\<^verbatim>\<open>data()\<close> is \<^verbatim>\<open>this + 1\<close>): \<open>nAllocLength + 1\<close> character units.
\<close>

record BStringData =
  pStringMgr :: mgr
  nDataLength :: int
  nAllocLength :: int
  nRefs :: int
  data :: "char list"

text \<open>
  The store maps the address of a header to the header; \<open>None\<close> is a freed buffer.
  A string object \<^verbatim>\<open>CSimpleStringT\<close> is its only member \<^verbatim>\<open>m_pszData\<close>, the payload
  address of the attached buffer, so a handle is an \<^typ>\<open>addr\<close> and the state of a
  member function is the store with the handle.
\<close>

type_synonym heap = "BStringData option list"
type_synonym state = "heap \<times> addr"

definition GetData :: "heap \<Rightarrow> addr \<Rightarrow> BStringData option" where
  "GetData s p = (if p < length s then s ! p else None)"

text \<open>
  A character pointer is null, points into the payload of a buffer of the store at an
  offset, or points to a character array outside the store (the characters from the
  pointer to the end of the array).
\<close>

datatype ptr = Null | Payload addr int | Mem "char list"

definition chars_at :: "heap \<Rightarrow> ptr \<Rightarrow> char list option" where
  "chars_at s p =
     (case p of
        Null \<Rightarrow> None
      | Mem cs \<Rightarrow> Some cs
      | Payload a off \<Rightarrow>
          (case GetData s a of
             None \<Rightarrow> None
           | Some d \<Rightarrow>
               if 0 \<le> off \<and> nat off \<le> length (data d)
               then Some (drop (nat off) (data d)) else None))"

definition read_chars :: "heap \<Rightarrow> ptr \<Rightarrow> nat \<Rightarrow> char list option" where
  \<comment> \<open>reading no character touches no memory\<close>
  "read_chars s p n =
     (if n = 0 then Some []
      else case chars_at s p of
             None \<Rightarrow> None
           | Some cs \<Rightarrow> if n \<le> length cs then Some (take n cs) else None)"

definition own_offset :: "ptr \<Rightarrow> addr \<Rightarrow> int \<Rightarrow> int option" where
  \<comment> \<open>\<^verbatim>\<open>nOffset = pszSrc - GetString()\<close> together with the test
      \<^verbatim>\<open>nOffset <= nOldLength\<close> on unsigned values: \<open>Some nOffset\<close> when the test holds.
      It holds for a pointer into the payload of the handle's own buffer at an offset in
      \<open>[0, nOldLength]\<close>; a pointer to any other object is at an unsigned distance larger
      than every length of that buffer.\<close>
  "own_offset pszSrc h nOldLength =
     (case pszSrc of
        Payload a k \<Rightarrow> if a = h \<and> 0 \<le> k \<and> k \<le> nOldLength then Some k else None
      | _ \<Rightarrow> None)"

definition overlaps :: "addr \<Rightarrow> int \<Rightarrow> ptr \<Rightarrow> nat \<Rightarrow> bool" where
  "overlaps dst off src n =
     (case src of
        Payload a k \<Rightarrow> a = dst \<and> 0 < n \<and> k < off + int n \<and> off < k + int n
      | _ \<Rightarrow> False)"

definition write_chars :: "char list \<Rightarrow> nat \<Rightarrow> char list \<Rightarrow> char list" where
  "write_chars xs off cs = take off xs @ cs @ drop (off + length cs) xs"

subsection \<open>Member functions of BStringData\<close>

definition AddRef :: "BStringData \<Rightarrow> BStringData" where
  "AddRef d = d\<lparr>nRefs := nRefs d + 1\<rparr>"

definition IsLocked :: "BStringData \<Rightarrow> bool" where
  "IsLocked d = (nRefs d < 0)"

definition IsShared :: "BStringData \<Rightarrow> bool" where
  "IsShared d = (nRefs d > 1)"

definition Lock_assert :: "BStringData \<Rightarrow> bool" where
  \<comment> \<open>\<^verbatim>\<open>AMVASSERT(nRefs <= 1)\<close> at the head of \<^verbatim>\<open>Lock\<close>\<close>
  "Lock_assert d = (nRefs d \<le> 1)"

definition Lock :: "BStringData \<Rightarrow> BStringData" where
  "Lock d = (let r = nRefs d - 1 in d\<lparr>nRefs := (if r = 0 then - 1 else r)\<rparr>)"

definition Unlock :: "BStringData \<Rightarrow> BStringData" where
  "Unlock d =
     (if IsLocked d
      then (let r = nRefs d + 1 in d\<lparr>nRefs := (if r = 0 then 1 else r)\<rparr>)
      else d)"

section \<open>The string manager\<close>

text \<open>
  \<^verbatim>\<open>IAmvStringMgr\<close> is an interface of pure virtual functions; no implementation is
  part of the source.  Its behaviour is a parameter of the model: which manager
  \<^verbatim>\<open>Clone\<close> returns, where the nil string of a manager lives, whether a request for
  \<open>n\<close> characters is served, whether \<^verbatim>\<open>Reallocate\<close> returns another buffer object,
  and what storage holds before it is written.
\<close>

record StringMgr =
  Clone :: "mgr \<Rightarrow> mgr"
  NilString :: "mgr \<Rightarrow> addr"
  Admits :: "mgr \<Rightarrow> int \<Rightarrow> bool"
  Relocates :: "mgr \<Rightarrow> int \<Rightarrow> bool"
  Fill :: "nat \<Rightarrow> char"

definition fresh_chars :: "StringMgr \<Rightarrow> nat \<Rightarrow> nat \<Rightarrow> char list" where
  "fresh_chars M i j = map (Fill M) [i..<j]"

text \<open>
  Modelled from the spec: \<^verbatim>\<open>IAmvStringMgr::Allocate\<close> has no body in the source.
  \<open>allocate(length, charUnitSize) -> Buffer | failure\<close>; the buffer is new, bound to the
  manager that produced it, unique (count 1) and has \<open>allocLength + 1\<close> character units
  of payload.
\<close>

definition mgrAllocate :: "StringMgr \<Rightarrow> mgr \<Rightarrow> int \<Rightarrow> heap \<Rightarrow> addr option \<times> heap" where
  "mgrAllocate M m n s =
     (if 0 \<le> n \<and> Admits M m n
      then (Some (length s),
            s @ [Some \<lparr>pStringMgr = m, nDataLength = 0, nAllocLength = n, nRefs = 1,
                       data = fresh_chars M 0 (nat n + 1)\<rparr>])
      else (None, s))"

text \<open>
  Modelled from the spec: \<^verbatim>\<open>IAmvStringMgr::Free\<close> has no body in the source.
  \<open>free(buffer)\<close> returns the buffer to the allocator.
\<close>

definition mgrFree :: "heap \<Rightarrow> addr \<Rightarrow> heap" where
  "mgrFree s p = s[p := None]"

text \<open>
  Modelled from the spec: \<^verbatim>\<open>IAmvStringMgr::Reallocate\<close> has no body in the source.
  \<open>reallocate(buffer, newLength, charUnitSize) -> Buffer | failure\<close>, which may return a
  different buffer object; header and characters are kept.
\<close>

definition mgrReallocate :: "StringMgr \<Rightarrow> addr \<Rightarrow> int \<Rightarrow> heap \<Rightarrow> addr option \<times> heap" where
  "mgrReallocate M p n s =
     (case GetData s p of
        None \<Rightarrow> (None, s)
      | Some d \<Rightarrow>
          if 0 \<le> n \<and> Admits M (pStringMgr d) n
          then (let d' = d\<lparr>nAllocLength := n,
                            data := take (nat n + 1) (data d)
                                    @ fresh_chars M (length (data d)) (nat n + 1)\<rparr>
                in if Relocates M (pStringMgr d) n
                   then (Some (length s), s[p := None] @ [Some d'])
                   else (Some p, s[p := Some d']))
          else (None, s))"

text \<open>
  Modelled from the spec: \<^verbatim>\<open>IAmvStringMgr::GetNilString\<close> has no body in the source.
  The nil buffer is one instance whose count is never driven to zero by release
  accounting: every handle that attaches it releases it once, so the manager hands it
  out with one more reference.
\<close>

definition mgrGetNilString :: "StringMgr \<Rightarrow> mgr \<Rightarrow> heap \<Rightarrow> addr \<times> heap" where
  "mgrGetNilString M m s =
     (let p = NilString M m
      in (p, case GetData s p of None \<Rightarrow> s | Some d \<Rightarrow> s[p := Some (AddRef d)]))"

definition Release :: "heap \<Rightarrow> addr \<Rightarrow> heap option" where
  \<comment> \<open>\<^verbatim>\<open>BStringData::Release\<close>; \<open>None\<close> when the pointer is dangling\<close>
  "Release s p =
     (case GetData s p of
        None \<Rightarrow> None
      | Some d \<Rightarrow>
          if nRefs d - 1 \<le> 0 then Some (mgrFree (s[p := Some (d\<lparr>nRefs := nRefs d - 1\<rparr>)]) p)
          else Some (s[p := Some (d\<lparr>nRefs := nRefs d - 1\<rparr>)]))"

definition poke :: "heap \<Rightarrow> addr \<Rightarrow> (BStringData \<Rightarrow> BStringData) \<Rightarrow> heap option" where
  \<comment> \<open>a write through a header pointer\<close>
  "poke s p f = (case GetData s p of None \<Rightarrow> None | Some d \<Rightarrow> Some (s[p := Some (f d)]))"

section \<open>Static helpers of CSimpleStringT\<close>

definition CopyChars :: "heap \<Rightarrow> addr \<Rightarrow> int \<Rightarrow> ptr \<Rightarrow> int \<Rightarrow> heap option" where
  \<comment> \<open>the four-argument \<^verbatim>\<open>CopyChars\<close>, a \<^verbatim>\<open>memcpy\<close> of \<open>nChars\<close> characters to
      offset \<open>off\<close> of the payload at \<open>dst\<close>\<close>
  "CopyChars s dst off pchSrc nChars =
     (if nChars < 0 \<or> off < 0 \<or> overlaps dst off pchSrc (nat nChars) then None
      else do {
        cs \<leftarrow> read_chars s pchSrc (nat nChars);
        d \<leftarrow> GetData s dst;
        if nat off + nat nChars \<le> length (data d)
        then Some (s[dst := Some (d\<lparr>data := write_chars (data d) (nat off) cs\<rparr>)])
        else None
      })"

definition CopyCharsOverlapped :: "heap \<Rightarrow> addr \<Rightarrow> int \<Rightarrow> ptr \<Rightarrow> int \<Rightarrow> heap option" where
  \<comment> \<open>the four-argument \<^verbatim>\<open>CopyCharsOverlapped\<close> writing at the start of the payload:
      \<^verbatim>\<open>memmove_s\<close> with destination size \<open>nDestLen\<close>\<close>
  "CopyCharsOverlapped s dst nDestLen pchSrc nChars =
     (if nChars < 0 \<or> nDestLen < nChars then None
      else do {
        cs \<leftarrow> read_chars s pchSrc (nat nChars);
        d \<leftarrow> GetData s dst;
        if nat nChars \<le> length (data d)
        then Some (s[dst := Some (d\<lparr>data := write_chars (data d) 0 cs\<rparr>)])
        else None
      })"

definition strnlen :: "char list \<Rightarrow> nat \<Rightarrow> nat option" where
  \<comment> \<open>\<^verbatim>\<open>strnlen\<close> on the characters of an object; \<open>None\<close> when the scan leaves it\<close>
  "strnlen cs n =
     (let k = length (takeWhile (\<lambda>c. c \<noteq> NUL) cs)
      in if n \<le> k then Some n else if k < length cs then Some k else None)"

definition strlen :: "char list \<Rightarrow> nat option" where
  "strlen cs =
     (let k = length (takeWhile (\<lambda>c. c \<noteq> NUL) cs)
      in if k < length cs then Some k else None)"

definition StringLength :: "heap \<Rightarrow> ptr \<Rightarrow> int option" where
  "StringLength s psz =
     (if psz = Null then Some 0
      else do { cs \<leftarrow> chars_at s psz; k \<leftarrow> strlen cs; Some (to_int (int k)) })"

definition StringLengthN :: "heap \<Rightarrow> ptr \<Rightarrow> nat \<Rightarrow> int option" where
  \<comment> \<open>a scan of no character touches no memory\<close>
  "StringLengthN s psz sizeInXChar =
     (if psz = Null then Some 0
      else if sizeInXChar = 0 then Some 0
      else do { cs \<leftarrow> chars_at s psz; k \<leftarrow> strnlen cs sizeInXChar; Some (to_int (int k)) })"

definition store_char :: "heap \<Rightarrow> addr \<Rightarrow> int \<Rightarrow> char \<Rightarrow> heap option" where
  \<comment> \<open>\<^verbatim>\<open>pszBuffer[i] = ch\<close>\<close>
  "store_char s h i ch =
     do {
       d \<leftarrow> GetData s h;
       if 0 \<le> i \<and> nat i < length (data d)
       then Some (s[h := Some (d\<lparr>data := (data d)[nat i := ch]\<rparr>)])
       else None
     }"

section \<open>Private member functions\<close>

definition SetLength :: "heap \<Rightarrow> addr \<Rightarrow> int \<Rightarrow> (state, state) result" where
  "SetLength s h nLength =
     (case GetData s h of
        None \<Rightarrow> Throw Fault (s, h)
      | Some d \<Rightarrow>
          if nLength < 0 \<or> nLength > nAllocLength d then Throw InvalidArgument (s, h)
          else if nat nLength < length (data d)
          then Return (s[h := Some (d\<lparr>nDataLength := nLength,
                                       data := (data d)[nat nLength := NUL]\<rparr>)], h)
          else Throw Fault (s, h))"

definition Fork :: "StringMgr \<Rightarrow> heap \<Rightarrow> addr \<Rightarrow> int \<Rightarrow> (state, state) result" where
  "Fork M s h nLength =
     (case GetData s h of
        None \<Rightarrow> Throw Fault (s, h)
      | Some pOldData \<Rightarrow>
          let nOldLength = nDataLength pOldData
          in (case mgrAllocate M (Clone M (pStringMgr pOldData)) nLength s of
                (None, s1) \<Rightarrow> Throw OutOfMemory (s1, h)
              | (Some pNewData, s1) \<Rightarrow>
                  let nCharsToCopy =
                        to_int ((if nOldLength < nLength then nOldLength else nLength) + 1)
                  in (case do {
                         s2 \<leftarrow> CopyChars s1 pNewData 0 (Payload h 0) nCharsToCopy;
                         s3 \<leftarrow> poke s2 pNewData (\<lambda>d. d\<lparr>nDataLength := nOldLength\<rparr>);
                         Release s3 h
                       } of
                       None \<Rightarrow> Throw Fault (s1, h)
                     | Some s4 \<Rightarrow> Return (s4, pNewData))))"

definition Reallocate :: "StringMgr \<Rightarrow> heap \<Rightarrow> addr \<Rightarrow> int \<Rightarrow> (state, state) result" where
  "Reallocate M s h nLength =
     (case GetData s h of
        None \<Rightarrow> Throw Fault (s, h)
      | Some pOldData \<Rightarrow>
          if nAllocLength pOldData \<ge> nLength \<or> nLength \<le> 0 then Throw OutOfMemory (s, h)
          else (case mgrReallocate M h nLength s of
                  (None, s1) \<Rightarrow> Throw OutOfMemory (s1, h)
                | (Some pNewData, s1) \<Rightarrow> Return (s1, pNewData)))"

definition grow_length :: "int \<Rightarrow> int \<Rightarrow> int" where
  \<comment> \<open>the value of \<^verbatim>\<open>nNewLength\<close> that \<^verbatim>\<open>PrepareWrite2\<close> passes to
      \<^verbatim>\<open>Reallocate\<close>, from \<^verbatim>\<open>nAllocLength\<close> and \<^verbatim>\<open>nLength\<close>\<close>
  "grow_length nAlloc nLength =
     (let nNewLength = nAlloc;
          nNewLength = (if nNewLength > 1024 * 1024 * 1024
                        then to_int (nNewLength + 1024 * 1024)
                        else to_int (nNewLength + c_div nNewLength 2))
      in if nNewLength < nLength then nLength else nNewLength)"

definition PrepareWrite2 :: "StringMgr \<Rightarrow> heap \<Rightarrow> addr \<Rightarrow> int \<Rightarrow> (state, state) result" where
  "PrepareWrite2 M s h nLength0 =
     (case GetData s h of
        None \<Rightarrow> Throw Fault (s, h)
      | Some pOldData \<Rightarrow>
          let nLength = (if nDataLength pOldData > nLength0 then nDataLength pOldData
                         else nLength0)
          in if IsShared pOldData then Fork M s h nLength
             else if nAllocLength pOldData < nLength
             then Reallocate M s h (grow_length (nAllocLength pOldData) nLength)
             else Return (s, h))"

definition PrepareWrite :: "StringMgr \<Rightarrow> heap \<Rightarrow> addr \<Rightarrow> int \<Rightarrow> (state, state) result" where
  "PrepareWrite M s h nLength =
     (if nLength < 0 then Throw InvalidArgument (s, h)
      else case GetData s h of
             None \<Rightarrow> Throw Fault (s, h)
           | Some pOldData \<Rightarrow>
               let nShared = 1 - nRefs pOldData;
                   nTooShort = nAllocLength pOldData - nLength
               in if (nShared OR nTooShort) < 0 then PrepareWrite2 M s h nLength
                  else Return (s, h))"

definition CloneData :: "StringMgr \<Rightarrow> heap \<Rightarrow> addr \<Rightarrow> (state, heap) result" where
  \<comment> \<open>returns the store with \<^verbatim>\<open>pNewData\<close>\<close>
  "CloneData M s pData =
     (case GetData s pData of
        None \<Rightarrow> Throw Fault s
      | Some d \<Rightarrow>
          let pNewStringMgr = Clone M (pStringMgr d)
          in if \<not> IsLocked d \<and> pNewStringMgr = pStringMgr d
             then Return (s[pData := Some (AddRef d)], pData)
             else (case mgrAllocate M pNewStringMgr (nDataLength d) s of
                     (None, s1) \<Rightarrow> Throw OutOfMemory s1
                   | (Some pNewData, s1) \<Rightarrow>
                       (case do {
                           s2 \<leftarrow> poke s1 pNewData (\<lambda>n. n\<lparr>nDataLength := nDataLength d\<rparr>);
                           CopyChars s2 pNewData 0 (Payload pData 0)
                             (to_int (nDataLength d + 1))
                         } of
                          None \<Rightarrow> Throw Fault s1
                        | Some s3 \<Rightarrow> Return (s3, pNewData))))"

section \<open>Public member functions\<close>

definition ReleaseBufferSetLength :: "heap \<Rightarrow> addr \<Rightarrow> int \<Rightarrow> (state, state) result" where
  "ReleaseBufferSetLength s h nNewLength = SetLength s h nNewLength"

definition ReleaseBuffer :: "heap \<Rightarrow> addr \<Rightarrow> int \<Rightarrow> (state, state) result" where
  "ReleaseBuffer s h nNewLength =
     (if nNewLength = - 1
      then (case GetData s h of
              None \<Rightarrow> Throw Fault (s, h)
            | Some d \<Rightarrow>
                (case StringLengthN s (Payload h 0) (to_size_t (nAllocLength d)) of
                   None \<Rightarrow> Throw Fault (s, h)
                 | Some n \<Rightarrow> SetLength s h n))
      else SetLength s h nNewLength)"

definition GetBuffer :: "StringMgr \<Rightarrow> heap \<Rightarrow> addr \<Rightarrow> (state, state) result" where
  \<comment> \<open>\<^verbatim>\<open>GetBuffer()\<close>; the pointer returned is the handle of the result\<close>
  "GetBuffer M s h =
     (case GetData s h of
        None \<Rightarrow> Throw Fault (s, h)
      | Some pData \<Rightarrow> if IsShared pData then Fork M s h (nDataLength pData) else Return (s, h))"

definition GetBuffer_n :: "StringMgr \<Rightarrow> heap \<Rightarrow> addr \<Rightarrow> int \<Rightarrow> (state, state) result" where
  \<comment> \<open>\<^verbatim>\<open>GetBuffer(int nMinBufferLength)\<close>\<close>
  "GetBuffer_n M s h nMinBufferLength = PrepareWrite M s h nMinBufferLength"

definition LockBuffer :: "StringMgr \<Rightarrow> heap \<Rightarrow> addr \<Rightarrow> (state, state) result" where
  "LockBuffer M s h =
     (case GetData s h of
        None \<Rightarrow> Throw Fault (s, h)
      | Some pData \<Rightarrow>
          (case (if IsShared pData then Fork M s h (nDataLength pData) else Return (s, h)) of
             Throw e st \<Rightarrow> Throw e st
           | Return (s1, h1) \<Rightarrow>
               (case poke s1 h1 Lock of
                  None \<Rightarrow> Throw Fault (s1, h1)
                | Some s2 \<Rightarrow> Return (s2, h1))))"

definition UnlockBuffer :: "heap \<Rightarrow> addr \<Rightarrow> (state, state) result" where
  "UnlockBuffer s h =
     (case poke s h Unlock of None \<Rightarrow> Throw Fault (s, h) | Some s1 \<Rightarrow> Return (s1, h))"

definition Empty :: "StringMgr \<Rightarrow> heap \<Rightarrow> addr \<Rightarrow> (state, state) result" where
  "Empty M s h =
     (case GetData s h of
        None \<Rightarrow> Throw Fault (s, h)
      | Some pOldData \<Rightarrow>
          if nDataLength pOldData = 0 then Return (s, h)
          else if IsLocked pOldData then SetLength s h 0
          else (case Release s h of
                  None \<Rightarrow> Throw Fault (s, h)
                | Some s1 \<Rightarrow>
                    (case mgrGetNilString M (pStringMgr pOldData) s1 of
                       (pNewData, s2) \<Rightarrow> Return (s2, pNewData))))"

definition FreeExtra :: "StringMgr \<Rightarrow> heap \<Rightarrow> addr \<Rightarrow> (state, state) result" where
  "FreeExtra M s h =
     (case GetData s h of
        None \<Rightarrow> Throw Fault (s, h)
      | Some pOldData \<Rightarrow>
          let nLength = nDataLength pOldData
          in if nAllocLength pOldData = nLength then Return (s, h)
             else if \<not> IsLocked pOldData
             then (case mgrAllocate M (pStringMgr pOldData) nLength s of
                     (None, s1) \<Rightarrow> SetLength s1 h nLength
                   | (Some pNewData, s1) \<Rightarrow>
                       (case do {
                           s2 \<leftarrow> CopyChars s1 pNewData 0 (Payload h 0) nLength;
                           Release s2 h
                         } of
                          None \<Rightarrow> Throw Fault (s1, h)
                        | Some s3 \<Rightarrow> SetLength s3 pNewData nLength))
             else Return (s, h))"

definition Truncate :: "StringMgr \<Rightarrow> heap \<Rightarrow> addr \<Rightarrow> int \<Rightarrow> (state, state) result" where
  "Truncate M s h nNewLength =
     (case GetBuffer_n M s h nNewLength of
        Throw e st \<Rightarrow> Throw e st
      | Return (s1, h1) \<Rightarrow> ReleaseBufferSetLength s1 h1 nNewLength)"

definition SetAt :: "StringMgr \<Rightarrow> heap \<Rightarrow> addr \<Rightarrow> int \<Rightarrow> char \<Rightarrow> (state, state) result" where
  "SetAt M s h iChar ch =
     (case GetData s h of
        None \<Rightarrow> Throw Fault (s, h)
      | Some d \<Rightarrow>
          if iChar < 0 \<or> iChar \<ge> nDataLength d then Throw InvalidArgument (s, h)
          else let nLength = nDataLength d
               in (case GetBuffer M s h of
                     Throw e st \<Rightarrow> Throw e st
                   | Return (s1, h1) \<Rightarrow>
                       (case store_char s1 h1 iChar ch of
                          None \<Rightarrow> Throw Fault (s1, h1)
                        | Some s2 \<Rightarrow> ReleaseBufferSetLength s2 h1 nLength)))"

definition SetString :: "StringMgr \<Rightarrow> heap \<Rightarrow> addr \<Rightarrow> ptr \<Rightarrow> int \<Rightarrow> (state, state) result" where
  \<comment> \<open>\<^verbatim>\<open>SetString(PCXSTR pszSrc, int nLength)\<close>\<close>
  "SetString M s h pszSrc nLength =
     (if nLength = 0 then Empty M s h
      else if pszSrc = Null then Throw InvalidArgument (s, h)
      else case GetData s h of
             None \<Rightarrow> Throw Fault (s, h)
           | Some d \<Rightarrow>
               let nOldLength = to_UINT (nDataLength d);
                   nOffset = own_offset pszSrc h nOldLength
               in (case GetBuffer_n M s h nLength of
                     Throw e st \<Rightarrow> Throw e st
                   | Return (s1, h1) \<Rightarrow>
                       (case do {
                           d1 \<leftarrow> GetData s1 h1;
                           (case nOffset of
                              Some k \<Rightarrow>
                                CopyCharsOverlapped s1 h1 (nAllocLength d1) (Payload h1 k) nLength
                            | None \<Rightarrow> CopyChars s1 h1 0 pszSrc nLength)
                         } of
                          None \<Rightarrow> Throw Fault (s1, h1)
                        | Some s2 \<Rightarrow> ReleaseBufferSetLength s2 h1 nLength)))"

definition SetString_sz :: "StringMgr \<Rightarrow> heap \<Rightarrow> addr \<Rightarrow> ptr \<Rightarrow> (state, state) result" where
  \<comment> \<open>\<^verbatim>\<open>SetString(PCXSTR pszSrc)\<close>\<close>
  "SetString_sz M s h pszSrc =
     (case StringLength s pszSrc of
        None \<Rightarrow> Throw Fault (s, h)
      | Some n \<Rightarrow> SetString M s h pszSrc n)"

definition Append :: "StringMgr \<Rightarrow> heap \<Rightarrow> addr \<Rightarrow> ptr \<Rightarrow> int \<Rightarrow> (state, state) result" where
  \<comment> \<open>\<^verbatim>\<open>Append(PCXSTR pszSrc, int nLength)\<close>; the test \<^verbatim>\<open>nOldLength < 0\<close> on a
      \<^verbatim>\<open>UINT\<close> is never true and has no branch here\<close>
  "Append M s h pszSrc nLength0 =
     (case GetData s h of
        None \<Rightarrow> Throw Fault (s, h)
      | Some d \<Rightarrow>
          let nOldLength = to_UINT (nDataLength d);
              nOffset = own_offset pszSrc h nOldLength
          in if \<not> nLength0 \<ge> 0 then Throw InvalidArgument (s, h)
             else (case StringLengthN s pszSrc (to_size_t nLength0) of
                     None \<Rightarrow> Throw Fault (s, h)
                   | Some nLength \<Rightarrow>
                       if \<not> INT_MAX - nLength \<ge> to_int nOldLength
                       then Throw InvalidArgument (s, h)
                       else let nNewLength = to_int (nOldLength + nLength)
                            in (case GetBuffer_n M s h nNewLength of
                                  Throw e st \<Rightarrow> Throw e st
                                | Return (s1, h1) \<Rightarrow>
                                    let pszSrc1 = (case nOffset of
                                                     Some k \<Rightarrow> Payload h1 k
                                                   | None \<Rightarrow> pszSrc)
                                    in (case CopyChars s1 h1 nOldLength pszSrc1 nLength of
                                          None \<Rightarrow> Throw Fault (s1, h1)
                                        | Some s2 \<Rightarrow>
                                            ReleaseBufferSetLength s2 h1 nNewLength))))"

definition Append_sz :: "StringMgr \<Rightarrow> heap \<Rightarrow> addr \<Rightarrow> ptr \<Rightarrow> (state, state) result" where
  \<comment> \<open>\<^verbatim>\<open>Append(PCXSTR pszSrc)\<close>\<close>
  "Append_sz M s h pszSrc =
     (case StringLength s pszSrc of
        None \<Rightarrow> Throw Fault (s, h)
      | Some n \<Rightarrow> Append M s h pszSrc n)"

definition Append_str :: "StringMgr \<Rightarrow> heap \<Rightarrow> addr \<Rightarrow> addr \<Rightarrow> (state, state) result" where
  \<comment> \<open>\<^verbatim>\<open>Append(const CSimpleStringT& strSrc)\<close>\<close>
  "Append_str M s h strSrc =
     (case GetData s strSrc of
        None \<Rightarrow> Throw Fault (s, h)
      | Some d \<Rightarrow> Append M s h (Payload strSrc 0) (nDataLength d))"

definition AppendChar :: "StringMgr \<Rightarrow> heap \<Rightarrow> addr \<Rightarrow> char \<Rightarrow> (state, state) result" where
  "AppendChar M s h ch =
     (case GetData s h of
        None \<Rightarrow> Throw Fault (s, h)
      | Some d \<Rightarrow>
          let nOldLength = to_UINT (nDataLength d);
              nNewLength = to_int (nOldLength + 1)
          in (case GetBuffer_n M s h nNewLength of
                Throw e st \<Rightarrow> Throw e st
              | Return (s1, h1) \<Rightarrow>
                  (case store_char s1 h1 nOldLength ch of
                     None \<Rightarrow> Throw Fault (s1, h1)
                   | Some s2 \<Rightarrow> ReleaseBufferSetLength s2 h1 nNewLength)))"

definition assign :: "StringMgr \<Rightarrow> heap \<Rightarrow> addr \<Rightarrow> addr \<Rightarrow> (state, state) result" where
  \<comment> \<open>\<^verbatim>\<open>operator=(const CSimpleStringT& strSrc)\<close>\<close>
  "assign M s h strSrc =
     (case GetData s strSrc of
        None \<Rightarrow> Throw Fault (s, h)
      | Some pSrcData \<Rightarrow>
          (case GetData s h of
             None \<Rightarrow> Throw Fault (s, h)
           | Some pOldData \<Rightarrow>
               if strSrc \<noteq> h
               then if IsLocked pOldData \<or> pStringMgr pSrcData \<noteq> pStringMgr pOldData
                    then SetString M s h (Payload strSrc 0) (nDataLength pSrcData)
                    else (case CloneData M s strSrc of
                            Throw e s1 \<Rightarrow> Throw e (s1, h)
                          | Return (s1, pNewData) \<Rightarrow>
                              (case Release s1 h of
                                 None \<Rightarrow> Throw Fault (s1, h)
                               | Some s2 \<Rightarrow> Return (s2, pNewData)))
               else Return (s, h)))"

definition assign_sz :: "StringMgr \<Rightarrow> heap \<Rightarrow> addr \<Rightarrow> ptr \<Rightarrow> (state, state) result" where
  \<comment> \<open>\<^verbatim>\<open>operator=(PCXSTR pszSrc)\<close>\<close>
  "assign_sz M s h pszSrc = SetString_sz M s h pszSrc"

subsection \<open>Construction and destruction\<close>

definition CSimpleStringT :: "StringMgr \<Rightarrow> heap \<Rightarrow> mgr \<Rightarrow> state" where
  \<comment> \<open>\<^verbatim>\<open>CSimpleStringT(IAmvStringMgr* pStringMgr)\<close>; a manager of the model is never
      null\<close>
  "CSimpleStringT M s pMgr =
     (case mgrGetNilString M pMgr s of (pData, s1) \<Rightarrow> (s1, pData))"

definition CSimpleStringT_copy :: "StringMgr \<Rightarrow> heap \<Rightarrow> addr \<Rightarrow> (state, heap) result" where
  \<comment> \<open>\<^verbatim>\<open>CSimpleStringT(const CSimpleStringT& strSrc)\<close>\<close>
  "CSimpleStringT_copy M s strSrc = CloneData M s strSrc"

definition CSimpleStringT_n :: "StringMgr \<Rightarrow> heap \<Rightarrow> ptr \<Rightarrow> int \<Rightarrow> mgr \<Rightarrow> (state, heap) result" where
  \<comment> \<open>\<^verbatim>\<open>CSimpleStringT(const XCHAR* pchSrc, int nLength, IAmvStringMgr* pStringMgr)\<close>\<close>
  "CSimpleStringT_n M s pchSrc nLength pMgr =
     (if pchSrc = Null \<and> nLength \<noteq> 0 then Throw InvalidArgument s
      else (case mgrAllocate M pMgr nLength s of
              (None, s1) \<Rightarrow> Throw OutOfMemory s1
            | (Some pData, s1) \<Rightarrow>
                (case SetLength s1 pData nLength of
                   Throw e st \<Rightarrow> Throw e (fst st)
                 | Return (s2, h) \<Rightarrow>
                     (case CopyChars s2 h 0 pchSrc nLength of
                        None \<Rightarrow> Throw Fault s2
                      | Some s3 \<Rightarrow> Return (s3, h)))))"

definition CSimpleStringT_sz :: "StringMgr \<Rightarrow> heap \<Rightarrow> ptr \<Rightarrow> mgr \<Rightarrow> (state, heap) result" where
  \<comment> \<open>\<^verbatim>\<open>CSimpleStringT(PCXSTR pszSrc, IAmvStringMgr* pStringMgr)\<close>\<close>
  "CSimpleStringT_sz M s pszSrc pMgr =
     (case StringLength s pszSrc of
        None \<Rightarrow> Throw Fault s
      | Some nLength \<Rightarrow>
          (case mgrAllocate M pMgr nLength s of
             (None, s1) \<Rightarrow> Throw OutOfMemory s1
           | (Some pData, s1) \<Rightarrow>
               (case SetLength s1 pData nLength of
                  Throw e st \<Rightarrow> Throw e (fst st)
                | Return (s2, h) \<Rightarrow>
                    (case CopyChars s2 h 0 pszSrc nLength of
                       None \<Rightarrow> Throw Fault s2
                     | Some s3 \<Rightarrow> Return (s3, h)))))"

definition destroy :: "heap \<Rightarrow> addr \<Rightarrow> heap option" where
  \<comment> \<open>\<^verbatim>\<open>~CSimpleStringT()\<close>\<close>
  "destroy s h = Release s h"

subsection \<open>Concatenation\<close>

definition GetManager :: "StringMgr \<Rightarrow> BStringData \<Rightarrow> mgr" where
  \<comment> \<open>\<^verbatim>\<open>GetManager\<close> on the header of the handle; a manager of the model is never
      null\<close>
  "GetManager M d = Clone M (pStringMgr d)"

definition Concatenate ::
  "StringMgr \<Rightarrow> heap \<Rightarrow> addr \<Rightarrow> ptr \<Rightarrow> int \<Rightarrow> ptr \<Rightarrow> int \<Rightarrow> (state, state) result" where
  "Concatenate M s strResult psz1 nLength1 psz2 nLength2 =
     (let nNewLength = to_int (nLength1 + nLength2)
      in (case GetBuffer_n M s strResult nNewLength of
            Throw e st \<Rightarrow> Throw e st
          | Return (s1, h1) \<Rightarrow>
              (case do {
                  s2 \<leftarrow> CopyChars s1 h1 0 psz1 nLength1;
                  CopyChars s2 h1 nLength1 psz2 nLength2
                } of
                 None \<Rightarrow> Throw Fault (s1, h1)
               | Some s3 \<Rightarrow> ReleaseBufferSetLength s3 h1 nNewLength)))"

definition operator_plus :: "StringMgr \<Rightarrow> heap \<Rightarrow> addr \<Rightarrow> addr \<Rightarrow> (state, heap) result" where
  \<comment> \<open>\<^verbatim>\<open>operator+(const CSimpleStringT& str1, const CSimpleStringT& str2)\<close>: the local
      \<open>s\<close> is the value returned; when \<^verbatim>\<open>Concatenate\<close> throws, \<open>s\<close> is destroyed\<close>
  "operator_plus M s str1 str2 =
     (case (GetData s str1, GetData s str2) of
        (Some d1, Some d2) \<Rightarrow>
          (case CSimpleStringT M s (GetManager M d1) of
             (s0, h0) \<Rightarrow>
               (case Concatenate M s0 h0 (Payload str1 0) (nDataLength d1)
                                         (Payload str2 0) (nDataLength d2) of
                  Throw e (s1, h1) \<Rightarrow>
                    (case destroy s1 h1 of
                       None \<Rightarrow> Throw Fault s1
                     | Some s2 \<Rightarrow> Throw e s2)
                | Return st \<Rightarrow> Return st))
      | _ \<Rightarrow> Throw Fault s)"

section \<open>Well-formed buffers and observations\<close>

text \<open>
  The layout of a buffer as the data model has it: \<open>dataLength \<le> allocLength\<close>, both
  32-bit lengths, a payload of \<open>allocLength + 1\<close> character units, and the terminator
  at index \<open>dataLength\<close>.
\<close>

definition buf_ok :: "BStringData \<Rightarrow> bool" where
  "buf_ok d =
     (0 \<le> nDataLength d \<and> nDataLength d \<le> nAllocLength d \<and> nAllocLength d \<le> INT_MAX \<and>
      length (data d) = nat (nAllocLength d) + 1 \<and> data d ! nat (nDataLength d) = NUL)"

definition heap_ok :: "heap \<Rightarrow> bool" where
  "heap_ok s = list_all (\<lambda>x. case x of None \<Rightarrow> True | Some d \<Rightarrow> buf_ok d) s"

definition content :: "BStringData \<Rightarrow> char list" where
  \<comment> \<open>the string value: the characters in use\<close>
  "content d = take (nat (nDataLength d)) (data d)"

definition returned :: "('a, 's) result \<Rightarrow> 'a option" where
  "returned r = (case r of Return x \<Rightarrow> Some x | Throw e st \<Rightarrow> None)"

definition attached :: "(state, 's) result \<Rightarrow> BStringData option" where
  \<comment> \<open>the header of the buffer that the handle references after a normal return\<close>
  "attached r = (case r of Return (s, h) \<Rightarrow> GetData s h | Throw e st \<Rightarrow> None)"

definition src_chars :: "heap \<Rightarrow> ptr \<Rightarrow> char list" where
  \<comment> \<open>the characters a source pointer refers to (none for a null pointer)\<close>
  "src_chars s p = (case chars_at s p of None \<Rightarrow> [] | Some cs \<Rightarrow> cs)"

definition clamped :: "heap \<Rightarrow> ptr \<Rightarrow> nat \<Rightarrow> char list" where
  \<comment> \<open>the first \<open>n\<close> characters of the source, cut at the first terminator\<close>
  "clamped s p n = takeWhile (\<lambda>c. c \<noteq> NUL) (take n (src_chars s p))"

definition layout_ok :: "BStringData \<Rightarrow> bool" where
  \<comment> \<open>a payload of \<open>nAllocLength + 1\<close> character units, \<open>nAllocLength\<close> a 32-bit length\<close>
  "layout_ok d =
     (0 \<le> nAllocLength d \<and> nAllocLength d \<le> INT_MAX \<and>
      length (data d) = nat (nAllocLength d) + 1)"

definition almost_ok :: "heap \<Rightarrow> addr \<Rightarrow> bool" where
  \<comment> \<open>the store while the buffer at \<open>h\<close> is being written: every other buffer is well
      formed, the one at \<open>h\<close> has its layout\<close>
  "almost_ok s h =
     (heap_ok (s[h := None]) \<and> (case GetData s h of None \<Rightarrow> False | Some d \<Rightarrow> layout_ok d))"

definition state_ok :: "state \<Rightarrow> bool" where
  \<comment> \<open>every buffer of the store is well formed and the handle references one of them\<close>
  "state_ok st = (heap_ok (fst st) \<and> GetData (fst st) (snd st) \<noteq> None)"

definition returns_ok :: "(state, 's) result \<Rightarrow> bool" where
  \<comment> \<open>after a normal return the buffers are well formed and the handle is attached\<close>
  "returns_ok r = (case r of Return st \<Rightarrow> state_ok st | Throw e st \<Rightarrow> True)"

text \<open>
  The nil buffer of a manager is \<^verbatim>\<open>CNilStringData\<close>: no capacity, and a count that starts
  at 2, so that releases by handles never free it.  A buffer is \<open>pinned\<close> in a state when
  it has no capacity and its count is above 1, not counting the reference of the handle
  of the state when that handle is attached to it.
\<close>

definition nil_ok :: "StringMgr \<Rightarrow> heap \<Rightarrow> bool" where
  \<comment> \<open>the nil buffer of every manager is in the store, with no capacity and a count above 1\<close>
  "nil_ok M s =
     (\<forall>m. case GetData s (NilString M m) of
            None \<Rightarrow> False
          | Some dn \<Rightarrow> nAllocLength dn = 0 \<and> 1 < nRefs dn)"

definition pinned :: "state \<Rightarrow> addr \<Rightarrow> bool" where
  "pinned st a =
     (case GetData (fst st) a of
        None \<Rightarrow> False
      | Some d \<Rightarrow> nAllocLength d = 0 \<and> (if a = snd st then 2 else 1) < nRefs d)"

definition handle_ok :: "StringMgr \<Rightarrow> state \<Rightarrow> bool" where
  \<comment> \<open>the invariant of a string object: well-formed buffers, an attached handle, pinned
      nil buffers\<close>
  "handle_ok M st = (state_ok st \<and> (\<forall>m. pinned st (NilString M m)))"

definition raw_ok :: "StringMgr \<Rightarrow> state \<Rightarrow> bool" where
  \<comment> \<open>the state between \<^verbatim>\<open>GetBuffer\<close> and \<^verbatim>\<open>ReleaseBuffer\<close>: the caller has written
      through the pointer, the terminator of the attached buffer need not be in place\<close>
  "raw_ok M st = (almost_ok (fst st) (snd st) \<and> (\<forall>m. pinned st (NilString M m)))"

definition short :: "heap \<Rightarrow> addr \<Rightarrow> bool" where
  \<comment> \<open>a live buffer whose length plus the terminator is an \<^verbatim>\<open>int\<close>\<close>
  "short s a = (case GetData s a of None \<Rightarrow> False | Some d \<Rightarrow> nDataLength d < INT_MAX)"

definition readable :: "heap \<Rightarrow> ptr \<Rightarrow> int \<Rightarrow> bool" where
  \<comment> \<open>a source of \<open>n\<close> characters: null, an array of at least \<open>n\<close> characters, or a
      pointer into the string of a live buffer with \<open>n\<close> characters up to its terminator\<close>
  "readable s p n =
     (case p of
        Null \<Rightarrow> True
      | Mem cs \<Rightarrow> n \<le> int (length cs)
      | Payload a k \<Rightarrow>
          (case GetData s a of
             None \<Rightarrow> False
           | Some d \<Rightarrow> 0 \<le> k \<and> k \<le> nDataLength d \<and> k + n \<le> nDataLength d + 1))"

definition terminated :: "heap \<Rightarrow> ptr \<Rightarrow> bool" where
  \<comment> \<open>a source that is a C string: null, an array that holds a terminator, or a pointer
      into the string of a live buffer\<close>
  "terminated s p =
     (case p of
        Null \<Rightarrow> True
      | Mem cs \<Rightarrow> NUL \<in> set cs
      | Payload a k \<Rightarrow>
          (case GetData s a of
             None \<Rightarrow> False
           | Some d \<Rightarrow> 0 \<le> k \<and> k \<le> nDataLength d))"

definition no_fault :: "('a, 's) result \<Rightarrow> bool" where
  \<comment> \<open>the call stayed within defined behaviour\<close>
  "no_fault r = (case r of Return x \<Rightarrow> True | Throw e st \<Rightarrow> e \<noteq> Fault)"

definition ok_after :: "StringMgr \<Rightarrow> bool \<Rightarrow> 's \<Rightarrow> (state, 's) result \<Rightarrow> bool" where
  \<comment> \<open>the outcome of a call made in the state \<open>before\<close>: a normal return leaves the
      invariant; a throw of \<^verbatim>\<open>OutOfMemory\<close> or \<^verbatim>\<open>InvalidArgument\<close> leaves the state
      \<open>before\<close>; when the arguments are \<open>safe\<close> the call stays within defined behaviour\<close>
  "ok_after M safe before r =
     (case r of
        Return st \<Rightarrow> handle_ok M st
      | Throw e st \<Rightarrow> if e = Fault then \<not> safe else st = before)"

section \<open>Example states\<close>

text \<open>
  A stateless manager whose \<^verbatim>\<open>Clone\<close> returns the same instance, the nil buffer
  of that manager, buffers holding a given text, a buffer with a capacity of one gibi characters, and a
  buffer of the largest length.
\<close>

definition mgr0 :: StringMgr where
  "mgr0 = \<lparr>Clone = (\<lambda>m. m), NilString = (\<lambda>m. 0), Admits = (\<lambda>m n. True),
            Relocates = (\<lambda>m n. True), Fill = (\<lambda>i. CHR ''?'')\<rparr>"

definition nil0 :: BStringData where
  "nil0 = \<lparr>pStringMgr = 0, nDataLength = 0, nAllocLength = 0, nRefs = 2, data = [NUL]\<rparr>"

definition str :: "string \<Rightarrow> int \<Rightarrow> BStringData" where
  "str cs r = \<lparr>pStringMgr = 0, nDataLength = int (length cs), nAllocLength = int (length cs),
               nRefs = r, data = cs @ [NUL]\<rparr>"

definition big :: BStringData where
  "big = \<lparr>pStringMgr = 0, nDataLength = 0, nAllocLength = 1073741824, nRefs = 1,
           data = replicate 1073741825 NUL\<rparr>"

definition full :: BStringData where
  "full = \<lparr>pStringMgr = 0, nDataLength = 2147483647, nAllocLength = 2147483647, nRefs = 1,
            data = replicate 2147483647 (CHR ''a'') @ [NUL]\<rparr>"

section \<open>Basic facts about the store\<close>

lemma GetData_lt: "GetData s p = Some d \<Longrightarrow> p < length s"
  by (simp add: GetData_def split: if_splits)

lemma GetData_upd: "GetData (s[p := x]) q = (if q = p \<and> p < length s then x else GetData s q)"
  by (simp add: GetData_def)

lemma GetData_snoc:
  "GetData (s @ [x]) q = (if q < length s then GetData s q else if q = length s then x else None)"
  by (simp add: GetData_def nth_append)

lemma GetData_length: "GetData s (length s) = None"
  by (simp add: GetData_def)

lemma to_int_id: "- 2147483648 \<le> x \<Longrightarrow> x \<le> 2147483647 \<Longrightarrow> to_int x = x"
  by (simp add: to_int_def)

lemma to_UINT_id: "0 \<le> x \<Longrightarrow> x \<le> 4294967295 \<Longrightarrow> to_UINT x = x"
  by (simp add: to_UINT_def)

lemma to_size_t_id: "0 \<le> x \<Longrightarrow> x \<le> 2147483647 \<Longrightarrow> to_size_t x = nat x"
  by (simp add: to_size_t_def)

lemma drop_fresh_chars: "drop k (fresh_chars M i j) = fresh_chars M (i + k) j"
  by (simp add: fresh_chars_def drop_map add.commute)

lemma length_fresh_chars: "length (fresh_chars M i j) = j - i"
  by (simp add: fresh_chars_def)

lemma Unlock_Lock: "nRefs d = 1 \<Longrightarrow> Unlock (Lock d) = d"
  by (simp add: Unlock_def Lock_def IsLocked_def)

lemma read_chars_Payload:
  "GetData s a = Some d \<Longrightarrow> 0 \<le> k \<Longrightarrow> nat k + n \<le> length (data d) \<Longrightarrow>
   read_chars s (Payload a k) n = Some (take n (drop (nat k) (data d)))"
  by (simp add: read_chars_def chars_at_def)

lemma CopyChars_other:
  assumes "GetData s a = Some da" "GetData s dst = Some dd" "a \<noteq> dst"
    and "0 \<le> n" "0 \<le> off" "0 \<le> k"
    and "nat k + nat n \<le> length (data da)" "nat off + nat n \<le> length (data dd)"
  shows "CopyChars s dst off (Payload a k) n =
           Some (s[dst := Some (dd\<lparr>data := write_chars (data dd) (nat off)
                                              (take (nat n) (drop (nat k) (data da)))\<rparr>)])"
  using assms by (simp add: CopyChars_def overlaps_def read_chars_Payload)

lemma Release_shared:
  "GetData s p = Some d \<Longrightarrow> 1 < nRefs d \<Longrightarrow>
   Release s p = Some (s[p := Some (d\<lparr>nRefs := nRefs d - 1\<rparr>)])"
  by (simp add: Release_def)

lemma if_less_min: "(if (a::int) < n then a else n) = min a n"
  by (simp add: min_def)

lemma Fork_shared:
  assumes live: "GetData s h = Some d"
    and shared: "1 < nRefs d"
    and n: "0 \<le> n"
    and adm: "Admits M (Clone M (pStringMgr d)) n"
    and len: "0 \<le> nDataLength d" "nat (nDataLength d) < length (data d)"
    and small: "min (nDataLength d) n < INT_MAX"
  shows "Fork M s h n =
           Return (s[h := Some (d\<lparr>nRefs := nRefs d - 1\<rparr>)]
                   @ [Some \<lparr>pStringMgr = Clone M (pStringMgr d),
                             nDataLength = nDataLength d, nAllocLength = n, nRefs = 1,
                             data = take (nat (min (nDataLength d) n) + 1) (data d)
                                    @ fresh_chars M (nat (min (nDataLength d) n) + 1) (nat n + 1)\<rparr>],
                   length s)"
proof -
  define new where "new = \<lparr>pStringMgr = Clone M (pStringMgr d), nDataLength = 0,
    nAllocLength = n, nRefs = 1, data = fresh_chars M 0 (nat n + 1)\<rparr>"
  define c where "c = min (nDataLength d) n"
  have h: "h < length s" using live by (rule GetData_lt)
  have c: "0 \<le> c" "c \<le> n" "c \<le> nDataLength d" using n len by (simp_all add: c_def)
  have alloc: "mgrAllocate M (Clone M (pStringMgr d)) n s = (Some (length s), s @ [Some new])"
    using n adm by (simp add: mgrAllocate_def new_def)
  have copy: "CopyChars (s @ [Some new]) (length s) 0 (Payload h 0) (c + 1) =
      Some ((s @ [Some new])[length s := Some (new\<lparr>data := write_chars (data new) 0
              (take (nat (c + 1)) (data d))\<rparr>)])"
    using live h c len
      CopyChars_other [of "s @ [Some new]" h d "length s" new "c + 1" 0 0]
    by (simp add: GetData_snoc new_def length_fresh_chars)
  have w: "write_chars (data new) 0 (take (nat (c + 1)) (data d)) =
      take (nat c + 1) (data d) @ fresh_chars M (nat c + 1) (nat n + 1)"
  proof -
    have "nat c + 1 \<le> length (data d)" using c len by simp
    then show ?thesis
      using c by (simp add: write_chars_def new_def drop_fresh_chars nat_add_distrib min_absorb2)
  qed
  have "to_int (c + 1) = c + 1"
    using c small by (intro to_int_id) (simp_all add: c_def INT_MAX_def)
  then have chars: "to_int ((if nDataLength d < n then nDataLength d else n) + 1) = c + 1"
    by (simp only: if_less_min c_def)
  have "Fork M s h n = Return ((s @ [Some (new\<lparr>data := take (nat c + 1) (data d)
            @ fresh_chars M (nat c + 1) (nat n + 1), nDataLength := nDataLength d\<rparr>)])
            [h := Some (d\<lparr>nRefs := nRefs d - 1\<rparr>)], length s)"
    using live h shared
    by (simp add: Fork_def alloc Let_def chars copy w poke_def
        GetData_upd GetData_snoc Release_shared list_update_append)
  then show ?thesis
    using h by (simp add: new_def c_def list_update_append)
qed

lemma Fork_Return_small:
  assumes ret: "Fork M s h n = Return x" and live: "GetData s h = Some d"
    and len: "nDataLength d \<le> INT_MAX" "n \<le> INT_MAX"
  shows "min (nDataLength d) n < INT_MAX"
proof (rule ccontr)
  assume "\<not> min (nDataLength d) n < INT_MAX"
  then have m: "min (nDataLength d) n = INT_MAX" using len by simp
  have "to_int (min (nDataLength d) n + 1) < 0"
    unfolding m by (simp add: to_int_def INT_MAX_def)
  then have neg: "to_int ((if nDataLength d < n then nDataLength d else n) + 1) < 0"
    by (simp only: if_less_min)
  show False
  proof (cases "nDataLength d < n")
    case True
    then have "to_int (nDataLength d + 1) < 0" using neg by simp
    then have "CopyChars s1 p 0 (Payload h 0) (to_int (nDataLength d + 1)) = None" for s1 p
      by (simp add: CopyChars_def)
    then show False
      using ret live True by (simp add: Fork_def Let_def split: prod.splits option.splits)
  next
    case False
    then have "to_int (n + 1) < 0" using neg by simp
    then have "CopyChars s1 p 0 (Payload h 0) (to_int (n + 1)) = None" for s1 p
      by (simp add: CopyChars_def)
    then show False
      using ret live False by (simp add: Fork_def Let_def split: prod.splits option.splits)
  qed
qed

lemma c_div_2: "0 \<le> a \<Longrightarrow> c_div a 2 = a div 2"
  by (cases "a = 0") (simp_all add: c_div_def)

lemma Release_live: "GetData s p = Some d \<Longrightarrow> \<exists>s'. Release s p = Some s'"
  by (simp add: Release_def)

lemma mgrReallocate_grow:
  assumes "GetData s h = Some d" "nAllocLength d < n" "0 \<le> nAllocLength d"
    "length (data d) = nat (nAllocLength d) + 1" "Admits M (pStringMgr d) n"
  shows "mgrReallocate M h n s =
     (if Relocates M (pStringMgr d) n
      then (Some (length s), s[h := None] @ [Some (d\<lparr>nAllocLength := n,
              data := data d @ fresh_chars M (nat (nAllocLength d) + 1) (nat n + 1)\<rparr>)])
      else (Some h, s[h := Some (d\<lparr>nAllocLength := n,
              data := data d @ fresh_chars M (nat (nAllocLength d) + 1) (nat n + 1)\<rparr>)]))"
  using assms by (simp add: mgrReallocate_def Let_def)

lemma grow_length_ge: "grow_length a n \<ge> n"
  by (simp add: grow_length_def Let_def)

lemma to_int_le: "to_int x \<le> 2147483647"
  by (simp add: to_int_def)

lemma grow_length_le: "n \<le> INT_MAX \<Longrightarrow> grow_length a n \<le> INT_MAX"
  using to_int_le by (simp add: grow_length_def Let_def INT_MAX_def)


lemma PrepareWrite_keep:
  "GetData s h = Some d \<Longrightarrow> 0 \<le> n \<Longrightarrow> nRefs d \<le> 1 \<Longrightarrow> n \<le> nAllocLength d \<Longrightarrow>
   PrepareWrite M s h n = Return (s, h)"
  by (simp add: PrepareWrite_def Let_def)

lemma PrepareWrite_fork:
  "GetData s h = Some d \<Longrightarrow> 0 \<le> n \<Longrightarrow> 1 < nRefs d \<Longrightarrow>
   PrepareWrite M s h n = Fork M s h (max n (nDataLength d))"
  by (simp add: PrepareWrite_def PrepareWrite2_def IsShared_def Let_def max_def)

lemma PrepareWrite_grow:
  "GetData s h = Some d \<Longrightarrow> 0 \<le> n \<Longrightarrow> nRefs d \<le> 1 \<Longrightarrow> nAllocLength d < n \<Longrightarrow>
   nDataLength d \<le> nAllocLength d \<Longrightarrow>
   PrepareWrite M s h n = Reallocate M s h (grow_length (nAllocLength d) n)"
  by (simp add: PrepareWrite_def PrepareWrite2_def IsShared_def Let_def)

lemma Reallocate_grow:
  assumes "GetData s h = Some d" "nAllocLength d < n" "0 \<le> nAllocLength d"
    "length (data d) = nat (nAllocLength d) + 1"
  shows "Reallocate M s h n =
     (if Admits M (pStringMgr d) n
      then Return (if Relocates M (pStringMgr d) n
        then (s[h := None] @ [Some (d\<lparr>nAllocLength := n,
              data := data d @ fresh_chars M (nat (nAllocLength d) + 1) (nat n + 1)\<rparr>)], length s)
        else (s[h := Some (d\<lparr>nAllocLength := n,
              data := data d @ fresh_chars M (nat (nAllocLength d) + 1) (nat n + 1)\<rparr>)], h))
      else Throw OutOfMemory (s, h))"
proof (cases "Admits M (pStringMgr d) n")
  case True
  then show ?thesis
    using assms by (simp add: Reallocate_def mgrReallocate_grow)
next
  case False
  then show ?thesis
    using assms by (simp add: Reallocate_def mgrReallocate_def)
qed

lemma buf_okD:
  assumes "buf_ok d"
  shows "0 \<le> nDataLength d" "nDataLength d \<le> nAllocLength d" "0 \<le> nAllocLength d"
    "nAllocLength d \<le> INT_MAX" "length (data d) = nat (nAllocLength d) + 1"
    "nat (nDataLength d) < length (data d)" "data d ! nat (nDataLength d) = NUL"
    "nat (nDataLength d) \<le> nat (nAllocLength d)"
  using assms by (auto simp: buf_ok_def)

text \<open>What a successful \<^verbatim>\<open>PrepareWrite\<close> guarantees.\<close>

lemma PrepareWrite_Return:
  assumes live: "GetData s h = Some d" and ok: "buf_ok d"
    and n: "n \<le> INT_MAX"
    and ret: "PrepareWrite M s h n = Return (s1, h1)"
  obtains d1 where "GetData s1 h1 = Some d1" "buf_ok d1" "n \<le> nAllocLength d1" "nRefs d1 \<le> 1"
    "nDataLength d1 = nDataLength d"
    "take (nat (nDataLength d) + 1) (data d1) = take (nat (nDataLength d) + 1) (data d)"
    "\<And>a. a \<noteq> h \<Longrightarrow> a < length s \<Longrightarrow> GetData s1 a = GetData s a"
    "length s \<le> length s1" "h1 = h \<or> h1 = length s"
    "h1 \<noteq> h \<Longrightarrow> GetData s1 h = (if 1 < nRefs d then Some (d\<lparr>nRefs := nRefs d - 1\<rparr>) else None)"
    "0 \<le> n"
    "h1 = h \<Longrightarrow> take (length (data d)) (data d1) = data d"
    "length s1 = length s \<or> (length s1 = length s + 1 \<and> h1 = length s)"
proof -
  note D = buf_okD [OF ok]
  have h: "h < length s" using live by (rule GetData_lt)
  have n0: "0 \<le> n" using ret by (auto simp: PrepareWrite_def split: if_splits)
  consider (fork) "1 < nRefs d" | (keep) "nRefs d \<le> 1" "n \<le> nAllocLength d"
    | (grow) "nRefs d \<le> 1" "nAllocLength d < n" by linarith
  then show thesis
  proof cases
    case fork
    let ?m = "max n (nDataLength d)"
    have F: "Fork M s h ?m = Return (s1, h1)"
      using ret PrepareWrite_fork [OF live n0 fork] by simp
    have adm: "Admits M (Clone M (pStringMgr d)) ?m"
      using F live n0 by (auto simp: Fork_def mgrAllocate_def Let_def split: if_splits)
    have m0: "0 \<le> ?m" using n0 by simp
    have sm: "min (nDataLength d) ?m < INT_MAX"
      using n D by (intro Fork_Return_small [OF F live]) simp_all
    note E = Fork_shared [OF live fork m0 adm D(1,6) sm]
    have E': "Return (s1, h1) = Return (s[h := Some (d\<lparr>nRefs := nRefs d - 1\<rparr>)] @
        [Some \<lparr>pStringMgr = Clone M (pStringMgr d), nDataLength = nDataLength d,
           nAllocLength = ?m, nRefs = 1,
           data = take (nat (nDataLength d) + 1) (data d) @
                  fresh_chars M (nat (nDataLength d) + 1) (nat ?m + 1)\<rparr>], length s)"
      using E D F by (simp add: min_absorb1)
    show ?thesis
    proof (rule that)
      show "GetData s1 h1 = Some \<lparr>pStringMgr = Clone M (pStringMgr d), nDataLength = nDataLength d,
           nAllocLength = ?m, nRefs = 1,
           data = take (nat (nDataLength d) + 1) (data d) @
                  fresh_chars M (nat (nDataLength d) + 1) (nat ?m + 1)\<rparr>"
        using E' by (simp add: GetData_snoc)
      show "buf_ok \<lparr>pStringMgr = Clone M (pStringMgr d), nDataLength = nDataLength d,
           nAllocLength = ?m, nRefs = 1,
           data = take (nat (nDataLength d) + 1) (data d) @
                  fresh_chars M (nat (nDataLength d) + 1) (nat ?m + 1)\<rparr>"
        using D n n0 by (auto simp: buf_ok_def length_fresh_chars nth_append max_def nat_le_iff)
    qed (use E' D n0 h fork in \<open>auto simp: GetData_snoc GetData_upd\<close>)
  next
    case keep
    have "Return (s1, h1) = Return (s, h)"
      using ret PrepareWrite_keep [OF live n0 keep] by simp
    then show ?thesis
      using that [of d] live ok keep n0 by auto
  next
    case grow
    let ?g = "grow_length (nAllocLength d) n"
    let ?d' = "d\<lparr>nAllocLength := ?g,
              data := data d @ fresh_chars M (nat (nAllocLength d) + 1) (nat ?g + 1)\<rparr>"
    have g: "n \<le> ?g" "?g \<le> INT_MAX" using grow_length_ge grow_length_le [OF n] by auto
    have R: "Reallocate M s h ?g = Return (s1, h1)"
      using ret PrepareWrite_grow [OF live n0 grow] D by simp
    have gA: "nAllocLength d < ?g" using g grow by linarith
    note E = Reallocate_grow [OF live gA, of M]
    have adm: "Admits M (pStringMgr d) ?g"
      using R E D by (auto split: if_splits)
    have E': "(s1, h1) = (if Relocates M (pStringMgr d) ?g
        then (s[h := None] @ [Some ?d'], length s) else (s[h := Some ?d'], h))"
      using R E D adm by simp
    have ok': "buf_ok ?d'"
      using D g gA by (auto simp: buf_ok_def length_fresh_chars nth_append)
    show ?thesis
    proof (rule that [of ?d'])
      show "GetData s1 h1 = Some ?d'"
        using E' h by (auto simp: GetData_snoc GetData_upd split: if_splits)
      show "buf_ok ?d'" by (rule ok')
    qed (use E' D g h grow n0 in \<open>auto simp: GetData_snoc GetData_upd split: if_splits\<close>)
  qed
qed

lemma LockBuffer_unique:
  "GetData s h = Some d \<Longrightarrow> nRefs d \<le> 1 \<Longrightarrow> LockBuffer M s h = Return (s[h := Some (Lock d)], h)"
  by (simp add: LockBuffer_def IsShared_def poke_def)

lemma UnlockBuffer_live:
  "GetData s h = Some d \<Longrightarrow> UnlockBuffer s h = Return (s[h := Some (Unlock d)], h)"
  by (simp add: UnlockBuffer_def poke_def)

lemma list_update_same_Some: "GetData s h = Some d \<Longrightarrow> s[h := Some d] = s"
  by (simp add: GetData_def list_update_same_conv split: if_splits)

lemma fresh_chars_Cons: "i < j \<Longrightarrow> fresh_chars M i j = Fill M i # fresh_chars M (Suc i) j"
  by (simp add: fresh_chars_def upt_rec)

lemma fresh_chars_Nil: "j \<le> i \<Longrightarrow> fresh_chars M i j = []"
  by (simp add: fresh_chars_def)

lemma SetLength_ok:
  "GetData s h = Some d \<Longrightarrow> 0 \<le> n \<Longrightarrow> n \<le> nAllocLength d \<Longrightarrow>
   length (data d) = nat (nAllocLength d) + 1 \<Longrightarrow>
   SetLength s h n = Return (s[h := Some (d\<lparr>nDataLength := n, data := (data d)[nat n := NUL]\<rparr>)], h)"
  by (simp add: SetLength_def)

lemma Release_eq:
  "GetData s p = Some d \<Longrightarrow>
   Release s p = Some (s[p := (if nRefs d \<le> 1 then None else Some (d\<lparr>nRefs := nRefs d - 1\<rparr>))])"
  by (simp add: Release_def mgrFree_def)

lemma Empty_SetString: "SetString M s h pszSrc 0 = Empty M s h"
  by (simp add: SetString_def)

lemma takeWhile_take:
  "takeWhile P (take n xs) = take (min n (length (takeWhile P xs))) xs"
proof (induction xs arbitrary: n)
  case Nil
  then show ?case by simp
next
  case (Cons x xs)
  then show ?case by (cases n) simp_all
qed

lemma strnlen_Some:
  assumes "strnlen cs n = Some k"
  shows "k \<le> n" "k \<le> length cs" "take k cs = takeWhile (\<lambda>c. c \<noteq> NUL) (take n cs)"
    "k = length (takeWhile (\<lambda>c. c \<noteq> NUL) (take n cs))"
proof -
  let ?w = "length (takeWhile (\<lambda>c. c \<noteq> NUL) cs)"
  have w: "?w \<le> length cs" by (rule length_takeWhile_le)
  have k: "k = min n ?w"
    using assms by (auto simp: strnlen_def Let_def split: if_splits)
  show "k \<le> n" "k \<le> length cs" using k w by simp_all
  show "take k cs = takeWhile (\<lambda>c. c \<noteq> NUL) (take n cs)"
    by (simp add: takeWhile_take k)
  show "k = length (takeWhile (\<lambda>c. c \<noteq> NUL) (take n cs))"
    using k w by (simp add: takeWhile_take)
qed

lemma strnlen_NUL:
  assumes "i < length cs" "cs ! i = NUL"
  shows "strnlen cs n = Some (min n (length (takeWhile (\<lambda>c. c \<noteq> NUL) cs)))"
    and "length (takeWhile (\<lambda>c. c \<noteq> NUL) cs) \<le> i"
proof -
  let ?w = "length (takeWhile (\<lambda>c. c \<noteq> NUL) cs)"
  show le: "?w \<le> i"
  proof (rule ccontr)
    assume "\<not> ?w \<le> i"
    then have "i < ?w" by simp
    then have "cs ! i \<noteq> NUL"
      using nth_length_takeWhile [of "\<lambda>c. c \<noteq> NUL" cs] 
      by (metis (mono_tags, lifting) nth_mem set_takeWhileD takeWhile_nth)
    then show False using assms by simp
  qed
  then have "?w < length cs" using assms by simp
  then show "strnlen cs n = Some (min n ?w)"
    by (simp add: strnlen_def Let_def min_def)
qed

lemma StringLengthN_Some:
  assumes "StringLengthN s p n = Some k" "n \<le> 2147483647"
  shows "k = int (length (clamped s p n))" "length (clamped s p n) \<le> n"
    "0 < k \<Longrightarrow> \<exists>cs. chars_at s p = Some cs \<and> nat k \<le> length cs"
proof -
  show 2: "length (clamped s p n) \<le> n"
  proof -
    have "length (clamped s p n) \<le> length (take n (src_chars s p))"
      unfolding clamped_def by (rule length_takeWhile_le)
    then show ?thesis by simp
  qed
  show "k = int (length (clamped s p n))"
  proof (cases "p = Null \<or> n = 0")
    case True
    then show ?thesis
      using assms
      by (auto simp: StringLengthN_def clamped_def src_chars_def chars_at_def split: if_splits)
  next
    case False
    then obtain cs kk where cs: "chars_at s p = Some cs" and kk: "strnlen cs n = Some kk"
      and k: "k = to_int (int kk)"
      using assms by (auto simp: StringLengthN_def bind_eq_Some_conv split: if_splits)
    have "kk \<le> n" using strnlen_Some(1) [OF kk] .
    then have "to_int (int kk) = int kk" using assms(2) by (intro to_int_id) simp_all
    then show ?thesis
      using k cs strnlen_Some(4) [OF kk] by (simp add: clamped_def src_chars_def)
  qed
  show "\<exists>cs. chars_at s p = Some cs \<and> nat k \<le> length cs" if "0 < k"
  proof -
    have "\<not> (p = Null \<or> n = 0)"
      using that assms by (auto simp: StringLengthN_def split: if_splits)
    then obtain cs kk where cs: "chars_at s p = Some cs" and kk: "strnlen cs n = Some kk"
      and k: "k = to_int (int kk)"
      using assms by (auto simp: StringLengthN_def bind_eq_Some_conv split: if_splits)
    have "kk \<le> n" using strnlen_Some(1) [OF kk] .
    then have "to_int (int kk) = int kk" using assms(2) by (intro to_int_id) simp_all
    then show ?thesis using cs k strnlen_Some(2) [OF kk] by simp
  qed
qed

lemma Append_negative:
  "GetData s h = Some d \<Longrightarrow> n < 0 \<Longrightarrow> Append M s h p n = Throw InvalidArgument (s, h)"
  by (simp add: Append_def Let_def)

lemma Append_unfold:
  assumes live: "GetData s h = Some d" and ok: "buf_ok d"
    and n: "0 \<le> n" "n \<le> INT_MAX" and SL: "StringLengthN s p (nat n) = Some k"
  shows "Append M s h p n =
     (if INT_MAX - k < nDataLength d then Throw InvalidArgument (s, h)
      else (case PrepareWrite M s h (nDataLength d + k) of
              Throw e st \<Rightarrow> Throw e st
            | Return (s1, h1) \<Rightarrow>
                (case CopyChars s1 h1 (nDataLength d)
                        (case own_offset p h (nDataLength d) of
                           Some off \<Rightarrow> Payload h1 off | None \<Rightarrow> p) k of
                   None \<Rightarrow> Throw Fault (s1, h1)
                 | Some s2 \<Rightarrow> SetLength s2 h1 (nDataLength d + k))))"
proof -
  note D = buf_okD [OF ok]
  have nn: "nat n \<le> 2147483647" using n by (simp add: INT_MAX_def)
  have k: "0 \<le> k" "k \<le> n"
    using StringLengthN_Some(1,2) [OF SL nn] n by linarith+
  have u: "to_UINT (nDataLength d) = nDataLength d"
    using D by (intro to_UINT_id) (simp_all add: INT_MAX_def)
  have i: "to_int (nDataLength d) = nDataLength d"
    using D by (intro to_int_id) (simp_all add: INT_MAX_def)
  have z: "to_size_t n = nat n"
    using n by (intro to_size_t_id) (simp_all add: INT_MAX_def)
  have j: "to_int (nDataLength d + k) = nDataLength d + k" if "\<not> INT_MAX - k < nDataLength d"
    using that D k by (intro to_int_id) (simp_all add: INT_MAX_def)
  show ?thesis
    using live n SL j
    by (simp add: Append_def Let_def u i z GetBuffer_n_def ReleaseBufferSetLength_def not_less
        split: result.split prod.split option.split)
qed

lemma write_chars_length:
  "off + length cs \<le> length xs \<Longrightarrow> length (write_chars xs off cs) = length xs"
  by (simp add: write_chars_def)

lemma write_chars_take:
  "off + length cs \<le> length xs \<Longrightarrow> take (off + length cs) (write_chars xs off cs) = take off xs @ cs"
  by (simp add: write_chars_def)

lemma CopyChars_SomeD:
  assumes "CopyChars s dst off p n = Some s2"
  obtains cs dd where "read_chars s p (nat n) = Some cs" "GetData s dst = Some dd"
    "0 \<le> n" "0 \<le> off" "nat off + nat n \<le> length (data dd)" "\<not> overlaps dst off p (nat n)"
    "s2 = s[dst := Some (dd\<lparr>data := write_chars (data dd) (nat off) cs\<rparr>)]"
    "length cs = nat n"
proof -
  from assms obtain cs dd where 1: "read_chars s p (nat n) = Some cs" "GetData s dst = Some dd"
    "0 \<le> n" "0 \<le> off" "nat off + nat n \<le> length (data dd)" "\<not> overlaps dst off p (nat n)"
    "s2 = s[dst := Some (dd\<lparr>data := write_chars (data dd) (nat off) cs\<rparr>)]"
    by (auto simp: CopyChars_def bind_eq_Some_conv split: if_splits)
  have "length cs = nat n"
    using 1(1) by (auto simp: read_chars_def split: if_splits option.splits)
  with 1 show thesis by (rule that)
qed

lemma SetLength_ReturnD:
  assumes "SetLength s h n = Return (s', h')" "GetData s h = Some d"
  shows "h' = h" "0 \<le> n" "n \<le> nAllocLength d" "nat n < length (data d)"
    "s' = s[h := Some (d\<lparr>nDataLength := n, data := (data d)[nat n := NUL]\<rparr>)]"
  using assms by (auto simp: SetLength_def split: if_splits)

lemma take_drop_prefix:
  assumes "take m xs = take m ys" "off + k \<le> m"
  shows "take k (drop off xs) = take k (drop off ys)"
proof -
  have *: "drop off (take (off + k) (take m zs)) = take k (drop off zs)" for zs :: "'a list"
    using assms(2) by (simp add: min_absorb1 drop_take)
  have "take k (drop off xs) = drop off (take (off + k) (take m xs))"
    by (simp only: *)
  also have "\<dots> = drop off (take (off + k) (take m ys))"
    by (simp only: assms(1))
  also have "\<dots> = take k (drop off ys)"
    by (simp only: *)
  finally show ?thesis .
qed

lemma read_chars_SomeD:
  assumes "read_chars s p k = Some cs'" "0 < k"
  obtains cs where "chars_at s p = Some cs" "k \<le> length cs" "cs' = take k cs"
  using assms by (auto simp: read_chars_def split: option.splits if_splits)

lemma chars_at_PayloadD:
  assumes "chars_at s (Payload a off) = Some cs"
  obtains da where "GetData s a = Some da" "0 \<le> off" "nat off \<le> length (data da)"
    "cs = drop (nat off) (data da)"
  using assms by (auto simp: chars_at_def split: option.splits if_splits)

lemma chars_at_Payload:
  "GetData s a = Some da \<Longrightarrow> 0 \<le> off \<Longrightarrow> nat off \<le> length (data da) \<Longrightarrow>
   chars_at s (Payload a off) = Some (drop (nat off) (data da))"
  by (simp add: chars_at_def)

text \<open>
  The characters that \<^verbatim>\<open>Append\<close> and \<^verbatim>\<open>SetString\<close> read after the write access was
  granted are the characters the source pointer referred to before.
\<close>

lemma read_after_PrepareWrite:
  assumes live: "GetData s h = Some d" and ok: "buf_ok d" and m: "m \<le> INT_MAX"
    and pw: "PrepareWrite M s h m = Return (s1, h1)"
    and src: "chars_at s p = Some cs" and kk: "kk \<le> length cs"
    and fits: "\<And>off. p = Payload h off \<Longrightarrow> 0 \<le> off \<Longrightarrow> off \<le> nDataLength d \<Longrightarrow>
                 nat off + kk \<le> nat (nDataLength d) + 1"
    and rd: "read_chars s1 (case own_offset p h (nDataLength d) of
                              Some off \<Rightarrow> Payload h1 off | None \<Rightarrow> p) kk = Some cs'"
  shows "cs' = take kk cs"
proof (cases "kk = 0")
  case True
  then show ?thesis using rd by (simp add: read_chars_def)
next
  case False
  then have k0: "0 < kk" by simp
  note D = buf_okD [OF ok]
  show ?thesis
  proof (rule PrepareWrite_Return [OF live ok m pw], goal_cases)
  case (1 d1)
  note d1 = 1(1) and pre = 1(6) and other = 1(7) and old = 1(10) and same = 1(12)
  show ?thesis
  proof (cases p)
    case Null
    then show ?thesis using src by (simp add: chars_at_def)
  next
    case (Mem cs0)
    then show ?thesis using src rd kk k0 by (simp add: own_offset_def read_chars_def chars_at_def)
  next
    case (Payload a off)
    from chars_at_PayloadD [OF src [unfolded Payload]] obtain da where
      da: "GetData s a = Some da" and off: "0 \<le> off" "nat off \<le> length (data da)" and
      cs: "cs = drop (nat off) (data da)" by blast
    have a: "a < length s" using da by (rule GetData_lt)
    consider (own) "a = h" "off \<le> nDataLength d" | (spare) "a = h" "\<not> off \<le> nDataLength d"
      | (foreign) "a \<noteq> h" by blast
    then show ?thesis
    proof cases
      case own
      then have p1: "(case own_offset p h (nDataLength d) of
                       Some off \<Rightarrow> Payload h1 off | None \<Rightarrow> p) = Payload h1 off"
        using Payload off by (simp add: own_offset_def)
      have dd: "da = d" using da live own by simp
      have f: "nat off + kk \<le> nat (nDataLength d) + 1"
        using fits [of off] Payload own off by simp
      from read_chars_SomeD [OF rd [unfolded p1] k0] obtain cs1 where
        c1: "chars_at s1 (Payload h1 off) = Some cs1" "cs' = take kk cs1" by blast
      from chars_at_PayloadD [OF c1(1)] d1 have "cs1 = drop (nat off) (data d1)" by auto
      then show ?thesis
        using c1(2) cs dd take_drop_prefix [OF pre f] by simp
    next
      case spare
      then have p1: "(case own_offset p h (nDataLength d) of
                       Some off \<Rightarrow> Payload h1 off | None \<Rightarrow> p) = Payload h off"
        using Payload by (simp add: own_offset_def)
      have dd: "da = d" using da live spare by simp
      from read_chars_SomeD [OF rd [unfolded p1] k0] obtain cs1 where
        c1: "chars_at s1 (Payload h off) = Some cs1" "cs' = take kk cs1" by blast
      from chars_at_PayloadD [OF c1(1)] obtain d2 where
        d2: "GetData s1 h = Some d2" "cs1 = drop (nat off) (data d2)" by blast
      have f: "nat off + kk \<le> length (data d)" using kk cs dd off by simp
      have "take (length (data d)) (data d2) = take (length (data d)) (data d)"
      proof (cases "h1 = h")
        case True
        then show ?thesis using same d1 d2 by simp
      next
        case False
        then show ?thesis using old d2 by (auto split: if_splits)
      qed
      from take_drop_prefix [OF this f] show ?thesis
        using c1(2) d2(2) cs dd by simp
    next
      case foreign
      then have p1: "(case own_offset p h (nDataLength d) of
                       Some off \<Rightarrow> Payload h1 off | None \<Rightarrow> p) = Payload a off"
        using Payload by (simp add: own_offset_def)
      have "GetData s1 a = Some da" using other [OF foreign a] da by simp
      then have "chars_at s1 (Payload a off) = Some cs"
        using off cs by (simp add: chars_at_Payload)
      then show ?thesis
        using rd [unfolded p1] k0 kk by (simp add: read_chars_def)
    qed
  qed
  qed
qed

lemma clamped_eq_take:
  "chars_at s p = Some cs \<Longrightarrow> clamped s p n = take (length (clamped s p n)) cs"
proof -
  assume cs: "chars_at s p = Some cs"
  let ?w = "takeWhile (\<lambda>c. c \<noteq> NUL) (take n cs)"
  have "?w = take (length ?w) (take n cs)" by (rule takeWhile_eq_take)
  moreover have "length ?w \<le> n"
    using length_takeWhile_le [of "\<lambda>c. c \<noteq> NUL" "take n cs"] by simp
  ultimately have "?w = take (length ?w) cs" by (simp add: min_absorb1)
  then show ?thesis using cs by (simp add: clamped_def src_chars_def)
qed

lemma clamped_own_fits:
  assumes live: "GetData s h = Some d" and ok: "buf_ok d"
    and off: "0 \<le> off" "off \<le> nDataLength d"
  shows "nat off + length (clamped s (Payload h off) n) \<le> nat (nDataLength d)"
proof -
  note D = buf_okD [OF ok]
  let ?cs = "drop (nat off) (data d)"
  let ?i = "nat (nDataLength d) - nat off"
  have o: "nat off \<le> nat (nDataLength d)" "nat off \<le> length (data d)"
    using off D by linarith+
  have cs: "chars_at s (Payload h off) = Some ?cs"
    using live off o by (simp add: chars_at_def)
  have "?i < length ?cs" using o D by (simp, arith)
  moreover have "?cs ! ?i = NUL" using o D by simp
  ultimately have i: "?i < length ?cs" "?cs ! ?i = NUL" by blast+
  have "length (takeWhile (\<lambda>c. c \<noteq> NUL) (take n ?cs)) \<le> length (takeWhile (\<lambda>c. c \<noteq> NUL) ?cs)"
    by (simp add: takeWhile_take)
  also have "\<dots> \<le> ?i" by (rule strnlen_NUL(2) [OF i])
  finally have "length (clamped s (Payload h off) n) \<le> ?i"
    using cs by (simp add: clamped_def src_chars_def)
  then show ?thesis using off by linarith
qed

lemma StringLengthN_own:
  assumes live: "GetData s h = Some d" and ok: "buf_ok d"
    and off: "0 \<le> off" "off \<le> nDataLength d" and n: "n \<le> 2147483647"
  shows "StringLengthN s (Payload h off) n = Some (int (length (clamped s (Payload h off) n)))"
proof -
  note D = buf_okD [OF ok]
  let ?cs = "drop (nat off) (data d)"
  let ?i = "nat (nDataLength d) - nat off"
  have o: "nat off \<le> nat (nDataLength d)" "nat off \<le> length (data d)"
    using off D by linarith+
  have cs: "chars_at s (Payload h off) = Some ?cs"
    using live off o by (simp add: chars_at_def)
  have "?i < length ?cs" using o D by (simp, arith)
  moreover have "?cs ! ?i = NUL" using o D by simp
  ultimately have i: "?i < length ?cs" "?cs ! ?i = NUL" by blast+
  have "\<exists>k. StringLengthN s (Payload h off) n = Some k"
    using cs strnlen_NUL(1) [OF i, of n] by (simp add: StringLengthN_def)
  then show ?thesis
    using StringLengthN_Some(1) [OF _ n] by auto
qed

lemma Append_Return:
  assumes live: "GetData s h = Some d" and ok: "buf_ok d" and n: "n \<le> INT_MAX"
    and ret: "Append M s h p n = Return (s', h')"
  obtains d' where "GetData s' h' = Some d'" "buf_ok d'"
    "nDataLength d' = nDataLength d + int (length (clamped s p (nat n)))"
    "content d' = content d @ clamped s p (nat n)"
    "0 \<le> n" "StringLengthN s p (nat n) = Some (int (length (clamped s p (nat n))))"
    "nDataLength d + int (length (clamped s p (nat n))) \<le> INT_MAX"
proof -
  note D = buf_okD [OF ok]
  let ?old = "nDataLength d"
  let ?kk = "length (clamped s p (nat n))"
  have n0: "0 \<le> n"
    using ret Append_negative [OF live, of n M p] by (cases "0 \<le> n") simp_all
  have nn: "nat n \<le> 2147483647" using n by (simp add: INT_MAX_def)
  have z: "to_size_t n = nat n"
    using n n0 by (intro to_size_t_id) (simp_all add: INT_MAX_def)
  obtain k where SL: "StringLengthN s p (nat n) = Some k"
    using ret live n0 by (cases "StringLengthN s p (nat n)") (simp_all add: Append_def Let_def z)
  have k: "k = int ?kk" by (rule StringLengthN_Some(1) [OF SL nn])
  note U = Append_unfold [OF live ok n0 n SL, of M]
  have nover: "\<not> INT_MAX - k < ?old"
    using ret U by (auto split: if_splits)
  obtain s1 h1 where pw: "PrepareWrite M s h (?old + k) = Return (s1, h1)"
    using ret U nover by (cases "PrepareWrite M s h (?old + k)") auto
  let ?p1 = "case own_offset p h ?old of Some off \<Rightarrow> Payload h1 off | None \<Rightarrow> p"
  obtain s2 where cp: "CopyChars s1 h1 ?old ?p1 k = Some s2"
    using ret U nover pw by (cases "CopyChars s1 h1 ?old ?p1 k") auto
  have sl: "SetLength s2 h1 (?old + k) = Return (s', h')"
    using ret U nover pw cp by simp
  have m: "?old + k \<le> INT_MAX" using nover by simp
  show thesis
  proof (rule PrepareWrite_Return [OF live ok m pw], goal_cases)
    case (1 d1)
    note d1 = 1(1) and ok1 = 1(2) and pre = 1(6)
    note D1 = buf_okD [OF ok1]
    from CopyChars_SomeD [OF cp] d1 obtain cs' where
      rd: "read_chars s1 ?p1 (nat k) = Some cs'" and
      fit: "nat ?old + nat k \<le> length (data d1)" and
      s2: "s2 = s1[h1 := Some (d1\<lparr>data := write_chars (data d1) (nat ?old) cs'\<rparr>)]" and
      lcs: "length cs' = nat k"
      by (metis option.inject)
    have cs': "cs' = clamped s p (nat n)"
    proof (cases "?kk = 0")
      case True
      then show ?thesis using lcs k by simp
    next
      case False
      then have "0 < k" using k by simp
      from StringLengthN_Some(3) [OF SL nn this] obtain cs where
        cs: "chars_at s p = Some cs" "nat k \<le> length cs" by blast
      have "cs' = take (nat k) cs"
      proof (rule read_after_PrepareWrite [OF live ok m pw cs(1) cs(2) _ rd])
        fix off assume "p = Payload h off" "0 \<le> off" "off \<le> ?old"
        then show "nat off + nat k \<le> nat ?old + 1"
          using clamped_own_fits [OF live ok, of off "nat n"] k by simp
      qed
      then show ?thesis using clamped_eq_take [OF cs(1), of "nat n"] k by simp
    qed
    have h1: "h1 < length s1" using d1 by (rule GetData_lt)
    let ?d2 = "d1\<lparr>data := write_chars (data d1) (nat ?old) cs'\<rparr>"
    have g2: "GetData s2 h1 = Some ?d2" using s2 h1 by (simp add: GetData_upd)
    note S = SetLength_ReturnD [OF sl g2]
    let ?d' = "?d2\<lparr>nDataLength := ?old + k, data := (data ?d2)[nat (?old + k) := NUL]\<rparr>"
    have len2: "length (data ?d2) = length (data d1)"
      using fit lcs by (simp add: write_chars_length)
    have g': "GetData s' h' = Some ?d'"
      using S(1,5) s2 h1 by (simp add: GetData_upd)
    have split: "nat (?old + k) = nat ?old + length cs'"
      using D k lcs by (simp add: nat_add_distrib)
    have "take (nat ?old) (data d1) = take (nat ?old) (data d)"
      using take_drop_prefix [OF pre, of 0 "nat ?old"] by simp
    then have c': "content ?d' = content d @ cs'"
      using fit lcs write_chars_take [of "nat ?old" cs' "data d1"]
      by (simp add: content_def split)
    have ok': "buf_ok ?d'"
      using D D1 S(2,3,4) len2 k by (simp add: buf_ok_def)
    show ?case
      using g' ok' c' cs' k n0 SL m by (intro that [of ?d']) simp_all
  qed
qed

lemma PrepareWrite_returns:
  assumes live: "GetData s h = Some d" and ok: "buf_ok d"
    and m: "0 \<le> m" "m \<le> INT_MAX" and adm: "\<And>mm k. Admits M mm k"
    and small: "nDataLength d < INT_MAX"
  shows "\<exists>s1 h1. PrepareWrite M s h m = Return (s1, h1)"
proof -
  note D = buf_okD [OF ok]
  consider (fork) "1 < nRefs d" | (keep) "nRefs d \<le> 1" "m \<le> nAllocLength d"
    | (grow) "nRefs d \<le> 1" "nAllocLength d < m" by linarith
  then show ?thesis
  proof cases
    case fork
    have "0 \<le> max m (nDataLength d)" using m by simp
    moreover have "min (nDataLength d) (max m (nDataLength d)) < INT_MAX"
      using small by simp
    ultimately show ?thesis
      using Fork_shared [OF live fork _ adm D(1,6)] PrepareWrite_fork [OF live m(1) fork]
      by simp
  next
    case keep
    then show ?thesis using PrepareWrite_keep [OF live m(1) keep] by simp
  next
    case grow
    have g: "nAllocLength d < grow_length (nAllocLength d) m"
      using grow_length_ge [of m "nAllocLength d"] grow by linarith
    show ?thesis
      using PrepareWrite_grow [OF live m(1) grow D(2)] Reallocate_grow [OF live g D(3,5), of M] adm
      by simp
  qed
qed

text \<open>Once write access is granted, \<^verbatim>\<open>Append\<close> copies and commits.\<close>

lemma Append_commits:
  assumes live: "GetData s h = Some d" and ok: "buf_ok d"
    and n: "0 \<le> n" "n \<le> INT_MAX"
    and SL: "StringLengthN s p (nat n) = Some k"
    and nover: "nDataLength d + k \<le> INT_MAX"
    and safe: "\<And>off. p = Payload h off \<Longrightarrow> 0 \<le> off \<and> off \<le> nDataLength d"
    and pw: "PrepareWrite M s h (nDataLength d + k) = Return (s1, h1)"
  shows "\<exists>s' h'. Append M s h p n = Return (s', h')"
proof -
  note D = buf_okD [OF ok]
  let ?old = "nDataLength d"
  have nn: "nat n \<le> 2147483647" using n by (simp add: INT_MAX_def)
  have k: "k = int (length (clamped s p (nat n)))" by (rule StringLengthN_Some(1) [OF SL nn])
  then have k0: "0 \<le> k" by simp
  have m: "0 \<le> ?old + k" using D k0 by simp
  let ?p1 = "case own_offset p h ?old of Some off \<Rightarrow> Payload h1 off | None \<Rightarrow> p"
  show ?thesis
  proof (rule PrepareWrite_Return [OF live ok nover pw], goal_cases)
    case (1 d1)
    note d1 = 1(1) and ok1 = 1(2) and cap = 1(3) and pre = 1(6) and other = 1(7) and h1 = 1(9)
    note D1 = buf_okD [OF ok1]
    have fit: "nat ?old + nat k \<le> length (data d1)"
      using D D1 cap k0 by (simp add: nat_add_distrib [symmetric] nat_le_iff)
    have rd: "\<exists>cs'. read_chars s1 ?p1 (nat k) = Some cs'" and
      nov: "\<not> overlaps h1 ?old ?p1 (nat k)"
    proof -
      show "\<exists>cs'. read_chars s1 ?p1 (nat k) = Some cs'"
      proof (cases "k = 0")
        case True
        then show ?thesis by (simp add: read_chars_def)
      next
        case False
        then have kpos: "0 < k" using k0 by simp
        from StringLengthN_Some(3) [OF SL nn kpos] obtain cs where
          cs: "chars_at s p = Some cs" "nat k \<le> length cs" by blast
        show ?thesis
        proof (cases p)
          case Null
          then show ?thesis using cs by (simp add: chars_at_def)
        next
          case (Mem cs0)
          then show ?thesis
            using cs by (simp add: own_offset_def read_chars_def chars_at_def)
        next
          case (Payload a off)
          from chars_at_PayloadD [OF cs(1) [unfolded Payload]] obtain da where
            da: "GetData s a = Some da" and off: "0 \<le> off" "nat off \<le> length (data da)" and
            csd: "cs = drop (nat off) (data da)" by blast
          show ?thesis
          proof (cases "a = h")
            case True
            then have o: "0 \<le> off" "off \<le> ?old" using safe [of off] Payload by simp_all
            have f: "nat off + nat k \<le> nat ?old"
              using clamped_own_fits [OF live ok o, of "nat n"] k Payload True by simp
            have "nat off \<le> length (data d1)" "nat k \<le> length (data d1) - nat off"
              using f fit by linarith+
            then show ?thesis
              using Payload True o d1 kpos
              by (simp add: own_offset_def read_chars_def chars_at_def)
          next
            case False
            have "a < length s" using da by (rule GetData_lt)
            then have "GetData s1 a = Some da" using other [OF False] da by simp
            then show ?thesis
              using Payload False off cs csd kpos
              by (simp add: own_offset_def read_chars_def chars_at_def)
          qed
        qed
      qed
      show "\<not> overlaps h1 ?old ?p1 (nat k)"
      proof (cases p)
        case (Payload a off)
        show ?thesis
        proof (cases "a = h")
          case True
          then have o: "0 \<le> off" "off \<le> ?old" using safe [of off] Payload by simp_all
          have f: "nat off + nat k \<le> nat ?old"
            using clamped_own_fits [OF live ok o, of "nat n"] k Payload True by simp
          then have "off + int (nat k) \<le> ?old" using o D by linarith
          then show ?thesis
            using Payload True o by (simp add: own_offset_def overlaps_def)
        next
          case False
          show ?thesis
          proof (cases "k = 0")
            case True
            then show ?thesis
              using Payload False by (simp add: own_offset_def overlaps_def)
          next
            case k: False
            then have kpos: "0 < k" using k0 by simp
            from StringLengthN_Some(3) [OF SL nn kpos] obtain cs where
              cs: "chars_at s p = Some cs" by blast
            from chars_at_PayloadD [OF cs [unfolded Payload]] obtain da where
              da: "GetData s a = Some da" by blast
            have "a < length s" using da by (rule GetData_lt)
            then have "a \<noteq> h1" using h1 False by auto
            then show ?thesis
              using Payload False by (simp add: own_offset_def overlaps_def)
          qed
        qed
      qed (simp_all add: own_offset_def overlaps_def)
    qed
    from rd obtain cs' where rd': "read_chars s1 ?p1 (nat k) = Some cs'" by blast
    have cp: "CopyChars s1 h1 ?old ?p1 k =
        Some (s1[h1 := Some (d1\<lparr>data := write_chars (data d1) (nat ?old) cs'\<rparr>)])"
      using rd' nov fit d1 D k0 by (simp add: CopyChars_def)
    have h1l: "h1 < length s1" using d1 by (rule GetData_lt)
    have lcs: "length cs' = nat k"
      using rd' by (auto simp: read_chars_def split: if_splits option.splits)
    have "SetLength (s1[h1 := Some (d1\<lparr>data := write_chars (data d1) (nat ?old) cs'\<rparr>)]) h1 (?old + k)
      = Return ((s1[h1 := Some (d1\<lparr>data := write_chars (data d1) (nat ?old) cs'\<rparr>)])
                 [h1 := Some ((d1\<lparr>data := write_chars (data d1) (nat ?old) cs'\<rparr>)
                    \<lparr>nDataLength := ?old + k,
                      data := (data (d1\<lparr>data := write_chars (data d1) (nat ?old) cs'\<rparr>))
                                [nat (?old + k) := NUL]\<rparr>)], h1)"
      using h1l m cap D1 fit lcs
      by (intro SetLength_ok) (simp_all add: GetData_upd write_chars_length)
    then show ?case
      using Append_unfold [OF live ok n SL, of M] nover pw cp by simp
  qed
qed

lemma Append_returns:
  assumes live: "GetData s h = Some d" and ok: "buf_ok d"
    and n: "0 \<le> n" "n \<le> INT_MAX" and adm: "\<And>mm k. Admits M mm k"
    and SL: "StringLengthN s p (nat n) = Some k"
    and nover: "nDataLength d + k \<le> INT_MAX"
    and safe: "\<And>off. p = Payload h off \<Longrightarrow> 0 \<le> off \<and> off \<le> nDataLength d"
    and small: "nDataLength d < INT_MAX"
  shows "\<exists>s' h'. Append M s h p n = Return (s', h')"
proof -
  note D = buf_okD [OF ok]
  have nn: "nat n \<le> 2147483647" using n by (simp add: INT_MAX_def)
  have "k = int (length (clamped s p (nat n)))" by (rule StringLengthN_Some(1) [OF SL nn])
  then have m: "0 \<le> nDataLength d + k" using D by simp
  from PrepareWrite_returns [OF live ok m nover adm small] obtain s1 h1 where
    pw: "PrepareWrite M s h (nDataLength d + k) = Return (s1, h1)" by blast
  show ?thesis by (rule Append_commits [OF live ok n SL nover safe pw])
qed

lemma attached_Return: "r = Return (s, h) \<Longrightarrow> attached r = GetData s h"
  by (simp add: attached_def)

lemma returnedE:
  assumes "returned r \<noteq> None"
  obtains x where "r = Return x"
  using assms by (cases r) (simp_all add: returned_def)

lemma concat_data:
  assumes "length A = la" "length B = lb" "length xs = la + lb + 1"
  shows "(write_chars (write_chars xs 0 A) la B)[la + lb := NUL] = A @ B @ [NUL]"
proof -
  have d: "drop (la + lb) xs = [xs ! (la + lb)]"
    using assms(3) by (metis Cons_nth_drop_Suc Suc_eq_plus1 drop_all lessI order_refl)
  have "write_chars (write_chars xs 0 A) la B = A @ B @ drop (la + lb) xs"
    using assms by (simp add: write_chars_def add.commute)
  then show ?thesis
    using assms d by (simp add: list_update_append)
qed

lemma to_int_wrap:
  assumes "2147483647 < x" "x \<le> 4294967295"
  shows "to_int x = x - 4294967296"
proof -
  have "x + 2147483648 = x - 2147483648 + 4294967296" by simp
  then have "(x + 2147483648) mod 4294967296 = (x - 2147483648 + 4294967296) mod 4294967296"
    by (simp only:)
  also have "\<dots> = (x - 2147483648) mod 4294967296"
    by (simp only: mod_add_self2)
  also have "\<dots> = x - 2147483648"
    using assms by (intro mod_pos_pos_trivial) simp_all
  finally show ?thesis by (simp add: to_int_def)
qed

lemma PrepareWrite_negative:
  "n < 0 \<Longrightarrow> PrepareWrite M s h n = Throw InvalidArgument (s, h)"
  by (simp add: PrepareWrite_def)

lemma ReleaseBufferSetLength_eq: "ReleaseBufferSetLength = SetLength"
  by (simp add: fun_eq_iff ReleaseBufferSetLength_def)

lemma SetString_foreign_unfold:
  assumes tgt: "GetData s h = Some dt" and okt: "buf_ok dt"
    and distinct: "src \<noteq> h" and n: "n \<noteq> 0"
  shows "SetString M s h (Payload src 0) n =
     (case PrepareWrite M s h n of
        Throw e st \<Rightarrow> Throw e st
      | Return (s1, h1) \<Rightarrow>
          (case CopyChars s1 h1 0 (Payload src 0) n of
             None \<Rightarrow> Throw Fault (s1, h1)
           | Some s2 \<Rightarrow> SetLength s2 h1 n))"
proof -
  have "GetData s1 h1 \<bind> (\<lambda>d1. CopyChars s1 h1 0 (Payload src 0) n) =
        CopyChars s1 h1 0 (Payload src 0) n" for s1 h1
    by (cases "GetData s1 h1") (simp_all add: CopyChars_def)
  then show ?thesis
    using tgt distinct n
    by (simp add: SetString_def Let_def own_offset_def GetBuffer_n_def ReleaseBufferSetLength_eq
        split: result.split prod.split option.split)
qed

lemma SetString_foreign_Return:
  assumes src: "GetData s src = Some ds" and tgt: "GetData s h = Some dt"
    and distinct: "src \<noteq> h" and oks: "buf_ok ds" and okt: "buf_ok dt"
    and n: "nDataLength ds \<noteq> 0"
    and ret: "SetString M s h (Payload src 0) (nDataLength ds) = Return (s', h')"
  obtains d' where "GetData s' h' = Some d'" "buf_ok d'" "content d' = content ds"
    "GetData s' src = Some ds" "h' \<noteq> src"
    "nRefs dt \<le> 1 \<Longrightarrow> nDataLength ds \<le> nAllocLength dt \<Longrightarrow> h' = h \<and> length s' = length s"
proof -
  note Ds = buf_okD [OF oks] and Dt = buf_okD [OF okt]
  let ?n = "nDataLength ds"
  note U = SetString_foreign_unfold [OF tgt okt distinct n, of M]
  obtain s1 h1 where pw: "PrepareWrite M s h ?n = Return (s1, h1)"
    using ret U by (cases "PrepareWrite M s h ?n") auto
  obtain s2 where cp: "CopyChars s1 h1 0 (Payload src 0) ?n = Some s2"
    using ret U pw by (cases "CopyChars s1 h1 0 (Payload src 0) ?n") auto
  have sl: "SetLength s2 h1 ?n = Return (s', h')"
    using ret U pw cp by simp
  have ls: "src < length s" using src by (rule GetData_lt)
  show thesis
  proof (rule PrepareWrite_Return [OF tgt okt Ds(4) [THEN order_trans [OF Ds(2)]] pw], goal_cases)
    case (1 d1)
    note d1 = 1(1) and ok1 = 1(2) and other = 1(7) and h1 = 1(9)
    note D1 = buf_okD [OF ok1]
    have src1: "GetData s1 src = Some ds" using other [OF distinct ls] src by simp
    have ne: "src \<noteq> h1" using h1 distinct ls by auto
    from CopyChars_SomeD [OF cp] d1 obtain cs where
      rd: "read_chars s1 (Payload src 0) (nat ?n) = Some cs" and
      fit: "nat 0 + nat ?n \<le> length (data d1)" and
      s2: "s2 = s1[h1 := Some (d1\<lparr>data := write_chars (data d1) (nat 0) cs\<rparr>)]" and
      lcs: "length cs = nat ?n"
      by (metis option.inject)
    have cs: "cs = content ds"
      using rd src1 Ds n by (simp add: read_chars_def chars_at_def content_def split: if_splits)
    have h1l: "h1 < length s1" using d1 by (rule GetData_lt)
    let ?d2 = "d1\<lparr>data := write_chars (data d1) 0 cs\<rparr>"
    have g2: "GetData s2 h1 = Some ?d2" using s2 h1l by (simp add: GetData_upd)
    note S = SetLength_ReturnD [OF sl g2]
    let ?d' = "?d2\<lparr>nDataLength := ?n, data := (data ?d2)[nat ?n := NUL]\<rparr>"
    have len2: "length (data ?d2) = length (data d1)"
      using fit lcs by (simp add: write_chars_length)
    have g': "GetData s' h' = Some ?d'"
      using S(1,5) s2 h1l by (simp add: GetData_upd)
    have c': "content ?d' = content ds"
      using fit lcs cs write_chars_take [of 0 cs "data d1"] by (simp add: content_def)
    have ok': "buf_ok ?d'"
      using D1 S(2,3,4) len2 by (simp add: buf_ok_def)
    have keep: "h' = h \<and> length s' = length s" if "nRefs dt \<le> 1" "?n \<le> nAllocLength dt"
    proof -
      have "PrepareWrite M s h ?n = Return (s, h)"
        using that Ds by (intro PrepareWrite_keep [OF tgt]) simp_all
      then show ?thesis using pw S(1,5) s2 by simp
    qed
    show ?case
    proof (rule that [of ?d'])
      show "GetData s' src = Some ds"
        using S(1,5) s2 src1 ne by (simp add: GetData_upd)
      show "h' \<noteq> src" using S(1) ne by simp
    qed (use g' ok' c' keep in simp_all)
  qed
qed

lemma Empty_Return:
  assumes tgt: "GetData s h = Some dt" and okt: "buf_ok dt"
    and nil: "GetData s (NilString M (pStringMgr dt)) = Some dn" and nil0: "nDataLength dn = 0"
    and okn: "buf_ok dn"
  obtains s' h' d' where "Empty M s h = Return (s', h')" "GetData s' h' = Some d'" "buf_ok d'"
    "content d' = []"
    "\<And>a. a \<noteq> h \<Longrightarrow> a \<noteq> NilString M (pStringMgr dt) \<Longrightarrow> GetData s' a = GetData s a"
    "h' = h \<or> (h' = NilString M (pStringMgr dt) \<and> \<not> IsLocked dt)"
    "length s' = length s"
    "h' \<noteq> h \<Longrightarrow> GetData s' h = (if nRefs dt \<le> 1 then None else Some (dt\<lparr>nRefs := nRefs dt - 1\<rparr>))"
    "h' = h \<Longrightarrow> h \<noteq> NilString M (pStringMgr dt) \<Longrightarrow>
       GetData s' (NilString M (pStringMgr dt)) = Some dn"
    "h' \<noteq> h \<Longrightarrow> d' = AddRef dn"
proof -
  note Dt = buf_okD [OF okt] and Dn = buf_okD [OF okn]
  let ?N = "NilString M (pStringMgr dt)"
  have h: "h < length s" using tgt by (rule GetData_lt)
  have N: "?N < length s" using nil by (rule GetData_lt)
  consider (empty) "nDataLength dt = 0" | (locked) "nDataLength dt \<noteq> 0" "IsLocked dt"
    | (rel) "nDataLength dt \<noteq> 0" "\<not> IsLocked dt" by blast
  then show thesis
  proof cases
    case empty
    then have "Empty M s h = Return (s, h)" using tgt by (simp add: Empty_def)
    then show ?thesis
      using tgt okt empty nil by (intro that [of s h dt]) (simp_all add: content_def)
  next
    case locked
    let ?d' = "dt\<lparr>nDataLength := 0, data := (data dt)[0 := NUL]\<rparr>"
    have "Empty M s h = Return (s[h := Some ?d'], h)"
      using tgt locked SetLength_ok [OF tgt, of 0] Dt by (simp add: Empty_def)
    moreover have "buf_ok ?d'" using Dt by (simp add: buf_ok_def)
    ultimately show ?thesis
      using h nil by (intro that [of "s[h := Some ?d']" h ?d']) (simp_all add: content_def GetData_upd)
  next
    case rel
    have ne: "?N \<noteq> h" using rel nil tgt nil0 by auto
    let ?s1 = "s[h := (if nRefs dt \<le> 1 then None else Some (dt\<lparr>nRefs := nRefs dt - 1\<rparr>))]"
    have g1: "GetData ?s1 ?N = Some dn" using nil ne by (simp add: GetData_upd)
    have "Empty M s h = Return (?s1[?N := Some (AddRef dn)], ?N)"
      using tgt rel Release_eq [OF tgt] g1 by (simp add: Empty_def mgrGetNilString_def Let_def)
    moreover have "buf_ok (AddRef dn)" using okn by (simp add: buf_ok_def AddRef_def)
    moreover have "content (AddRef dn) = []" using nil0 by (simp add: content_def AddRef_def)
    ultimately show ?thesis
      using h N ne rel
      by (intro that [of "?s1[?N := Some (AddRef dn)]" ?N "AddRef dn"])
        (simp_all add: GetData_upd)
  qed
qed

lemma SetString_foreign_returns:
  assumes src: "GetData s src = Some ds" and tgt: "GetData s h = Some dt"
    and distinct: "src \<noteq> h" and oks: "buf_ok ds" and okt: "buf_ok dt"
    and n: "nDataLength ds \<noteq> 0" and adm: "\<And>m k. Admits M m k"
    and small: "nDataLength dt < INT_MAX"
  shows "\<exists>s' h'. SetString M s h (Payload src 0) (nDataLength ds) = Return (s', h')"
proof -
  note Ds = buf_okD [OF oks] and Dt = buf_okD [OF okt]
  let ?n = "nDataLength ds"
  have nmax: "?n \<le> INT_MAX" using Ds by simp
  from PrepareWrite_returns [OF tgt okt Ds(1) nmax adm small] obtain s1 h1 where
    pw: "PrepareWrite M s h ?n = Return (s1, h1)" by blast
  have ls: "src < length s" using src by (rule GetData_lt)
  show ?thesis
  proof (rule PrepareWrite_Return [OF tgt okt nmax pw], goal_cases)
    case (1 d1)
    note d1 = 1(1) and ok1 = 1(2) and cap = 1(3) and other = 1(7) and h1 = 1(9)
    note D1 = buf_okD [OF ok1]
    have src1: "GetData s1 src = Some ds" using other [OF distinct ls] src by simp
    have ne: "src \<noteq> h1" using h1 distinct ls by auto
    have fit: "nat ?n \<le> length (data d1)" using cap D1 Ds by simp
    have cp: "CopyChars s1 h1 0 (Payload src 0) ?n =
        Some (s1[h1 := Some (d1\<lparr>data := write_chars (data d1) (nat 0)
                (take (nat ?n) (drop (nat 0) (data ds)))\<rparr>)])"
      using Ds fit by (intro CopyChars_other [OF src1 d1 ne]) simp_all
    let ?d2 = "d1\<lparr>data := write_chars (data d1) (nat 0) (take (nat ?n) (drop (nat 0) (data ds)))\<rparr>"
    have h1l: "h1 < length s1" using d1 by (rule GetData_lt)
    have "SetLength (s1[h1 := Some ?d2]) h1 ?n =
        Return ((s1[h1 := Some ?d2])[h1 := Some (?d2\<lparr>nDataLength := ?n,
                  data := (data ?d2)[nat ?n := NUL]\<rparr>)], h1)"
      using h1l Ds cap D1 fit
      by (intro SetLength_ok) (simp_all add: GetData_upd write_chars_length)
    then show ?case
      using SetString_foreign_unfold [OF tgt okt distinct n, of M] pw cp by simp
  qed
qed

lemma CloneData_share:
  "GetData s p = Some d \<Longrightarrow> \<not> IsLocked d \<Longrightarrow> Clone M (pStringMgr d) = pStringMgr d \<Longrightarrow>
   CloneData M s p = Return (s[p := Some (AddRef d)], p)"
  by (simp add: CloneData_def Let_def)

section \<open>The operations keep the buffers well formed\<close>

lemma heap_ok_iff: "heap_ok s \<longleftrightarrow> (\<forall>a d. GetData s a = Some d \<longrightarrow> buf_ok d)"
proof
  assume h: "heap_ok s"
  show "\<forall>a d. GetData s a = Some d \<longrightarrow> buf_ok d"
  proof (intro allI impI)
    fix a d assume g: "GetData s a = Some d"
    then have "a < length s" "s ! a = Some d" by (auto simp: GetData_def split: if_splits)
    then have "Some d \<in> set s" by (metis nth_mem)
    then show "buf_ok d" using h by (auto simp: heap_ok_def list_all_iff)
  qed
next
  assume a: "\<forall>a d. GetData s a = Some d \<longrightarrow> buf_ok d"
  show "heap_ok s"
    unfolding heap_ok_def list_all_iff
  proof
    fix x assume "x \<in> set s"
    then obtain i where i: "i < length s" "s ! i = x" by (auto simp: in_set_conv_nth)
    show "case x of None \<Rightarrow> True | Some d \<Rightarrow> buf_ok d"
    proof (cases x)
      case (Some d)
      then have "GetData s i = Some d" using i by (simp add: GetData_def)
      then show ?thesis using a Some by auto
    qed simp
  qed
qed

lemma buf_ok_nRefs [simp]: "buf_ok (d\<lparr>nRefs := r\<rparr>) = buf_ok d"
  by (simp add: buf_ok_def)

lemma buf_ok_pStringMgr [simp]: "buf_ok (d\<lparr>pStringMgr := r\<rparr>) = buf_ok d"
  by (simp add: buf_ok_def)

lemma buf_ok_AddRef [simp]: "buf_ok (AddRef d) = buf_ok d"
  by (simp add: AddRef_def)

lemma buf_ok_layout: "buf_ok d \<Longrightarrow> layout_ok d"
  by (simp add: buf_ok_def layout_ok_def)

lemma almost_ok_iff:
  "almost_ok s h \<longleftrightarrow>
     (\<exists>d. GetData s h = Some d \<and> layout_ok d) \<and>
     (\<forall>a d. a \<noteq> h \<longrightarrow> GetData s a = Some d \<longrightarrow> buf_ok d)"
  by (auto simp: almost_ok_def heap_ok_iff GetData_upd split: option.splits if_splits
      dest: GetData_lt)

lemma state_ok_iff:
  "state_ok (s, h) \<longleftrightarrow> (\<exists>d. GetData s h = Some d) \<and> (\<forall>a d. GetData s a = Some d \<longrightarrow> buf_ok d)"
  by (auto simp: state_ok_def heap_ok_iff)

lemma state_ok_almost: "state_ok (s, h) \<Longrightarrow> almost_ok s h"
  by (auto simp: state_ok_iff almost_ok_iff buf_ok_layout)

lemma almost_ok_data:
  assumes "almost_ok s h" "GetData s h = Some d" "length xs = length (data d)"
  shows "almost_ok (s[h := Some (d\<lparr>data := xs\<rparr>)]) h"
  using assms by (auto simp: almost_ok_iff GetData_upd layout_ok_def dest: GetData_lt)

lemma almost_ok_CopyChars:
  assumes "almost_ok s h" "CopyChars s h off p n = Some s2"
  shows "almost_ok s2 h"
proof (rule CopyChars_SomeD [OF assms(2)], goal_cases)
  case (1 cs dd)
  then show ?case
    using almost_ok_data [OF assms(1) 1(2), of "write_chars (data dd) (nat off) cs"]
    by (simp add: write_chars_length)
qed

lemma CopyCharsOverlapped_SomeD:
  assumes "CopyCharsOverlapped s dst m p n = Some s2"
  obtains cs dd where "read_chars s p (nat n) = Some cs" "GetData s dst = Some dd"
    "0 \<le> n" "nat n \<le> length (data dd)"
    "s2 = s[dst := Some (dd\<lparr>data := write_chars (data dd) 0 cs\<rparr>)]"
    "length cs = nat n"
proof -
  from assms obtain cs dd where 1: "read_chars s p (nat n) = Some cs" "GetData s dst = Some dd"
    "0 \<le> n" "nat n \<le> length (data dd)"
    "s2 = s[dst := Some (dd\<lparr>data := write_chars (data dd) 0 cs\<rparr>)]"
    by (auto simp: CopyCharsOverlapped_def bind_eq_Some_conv split: if_splits)
  have "length cs = nat n"
    using 1(1) by (auto simp: read_chars_def split: if_splits option.splits)
  with 1 show thesis by (rule that)
qed

lemma almost_ok_CopyCharsOverlapped:
  assumes "almost_ok s h" "CopyCharsOverlapped s h m p n = Some s2"
  shows "almost_ok s2 h"
proof (rule CopyCharsOverlapped_SomeD [OF assms(2)], goal_cases)
  case (1 cs dd)
  then show ?case
    using almost_ok_data [OF assms(1) 1(2), of "write_chars (data dd) 0 cs"]
    by (simp add: write_chars_length)
qed

lemma almost_ok_store_char:
  assumes "almost_ok s h" "store_char s h i c = Some s2"
  shows "almost_ok s2 h"
proof -
  from assms(2) obtain d where d: "GetData s h = Some d"
    "s2 = s[h := Some (d\<lparr>data := (data d)[nat i := c]\<rparr>)]"
    by (auto simp: store_char_def bind_eq_Some_conv split: if_splits)
  show ?thesis
    using almost_ok_data [OF assms(1) d(1), of "(data d)[nat i := c]"] d(2) by simp
qed

lemma almost_ok_SetLength:
  assumes "almost_ok s h" "SetLength s h n = Return (s', h')"
  shows "state_ok (s', h')"
proof -
  from assms(1) obtain d where d: "GetData s h = Some d" "layout_ok d"
    by (auto simp: almost_ok_iff)
  note S = SetLength_ReturnD [OF assms(2) d(1)]
  have "buf_ok (d\<lparr>nDataLength := n, data := (data d)[nat n := NUL]\<rparr>)"
    using S(2,3,4) d(2) by (simp add: buf_ok_def layout_ok_def)
  then show ?thesis
    using assms(1) S(1,5) d
    by (auto simp: state_ok_iff almost_ok_iff GetData_upd split: if_splits dest: GetData_lt)
qed

lemma state_ok_SetLength:
  "state_ok (s, h) \<Longrightarrow> SetLength s h n = Return (s', h') \<Longrightarrow> state_ok (s', h')"
  by (rule almost_ok_SetLength [OF state_ok_almost])

lemma state_ok_PrepareWrite:
  assumes "state_ok (s, h)" "n \<le> INT_MAX" "PrepareWrite M s h n = Return (s1, h1)"
  shows "state_ok (s1, h1)"
proof -
  from assms(1) obtain d where d: "GetData s h = Some d" "buf_ok d"
    by (auto simp: state_ok_iff)
  have all: "\<And>a d. GetData s a = Some d \<Longrightarrow> buf_ok d"
    using assms(1) by (auto simp: state_ok_iff)
  show ?thesis
  proof (rule PrepareWrite_Return [OF d assms(2,3)], goal_cases)
    case (1 d1)
    have "buf_ok x" if g: "GetData s1 a = Some x" for a x
    proof -
      have al: "a < length s1" using g by (rule GetData_lt)
      consider "a = h1" | "a \<noteq> h1" "a = h" | "a \<noteq> h1" "a \<noteq> h" by blast
      then show ?thesis
      proof cases
        case 1
        then show ?thesis using g \<open>GetData s1 h1 = Some d1\<close> \<open>buf_ok d1\<close> by simp
      next
        case 2
        then show ?thesis using g 1(10) d(2) by (auto split: if_splits)
      next
        case 3
        then have "a < length s" using al 1(13) by auto
        then show ?thesis using g 1(7) [OF 3(2)] all by simp
      qed
    qed
    then show ?case using 1(1) by (auto simp: state_ok_iff)
  qed
qed

lemma returns_ok_Return: "returns_ok (Return st) = state_ok st"
  by (simp add: returns_ok_def)

lemma returns_ok_Throw: "returns_ok (Throw e st)"
  by (simp add: returns_ok_def)

lemma returns_okI:
  "(\<And>s' h'. r = Return (s', h') \<Longrightarrow> state_ok (s', h')) \<Longrightarrow> returns_ok r"
  by (cases r) (auto simp: returns_ok_def)

lemma ReleaseBufferSetLength_ok:
  "state_ok (s, h) \<Longrightarrow> returns_ok (ReleaseBufferSetLength s h n)"
  by (rule returns_okI) (auto simp: ReleaseBufferSetLength_def elim: state_ok_SetLength)

lemma ReleaseBuffer_ok:
  "state_ok (s, h) \<Longrightarrow> returns_ok (ReleaseBuffer s h n)"
  by (rule returns_okI)
    (auto simp: ReleaseBuffer_def split: if_splits option.splits elim: state_ok_SetLength)

lemma Truncate_ok:
  assumes "state_ok (s, h)" "n \<le> INT_MAX"
  shows "returns_ok (Truncate M s h n)"
proof (rule returns_okI)
  fix s' h' assume r: "Truncate M s h n = Return (s', h')"
  then obtain s1 h1 where pw: "PrepareWrite M s h n = Return (s1, h1)"
    and sl: "SetLength s1 h1 n = Return (s', h')"
    by (auto simp: Truncate_def GetBuffer_n_def ReleaseBufferSetLength_eq
        split: result.splits)
  from state_ok_SetLength [OF state_ok_PrepareWrite [OF assms pw] sl]
  show "state_ok (s', h')" .
qed

lemma state_ok_GetBuffer:
  assumes "state_ok (s, h)" "GetBuffer M s h = Return (s1, h1)"
  shows "state_ok (s1, h1)"
proof -
  from assms(1) obtain d where d: "GetData s h = Some d" "buf_ok d"
    by (auto simp: state_ok_iff)
  note D = buf_okD [OF d(2)]
  show ?thesis
  proof (cases "IsShared d")
    case True
    then have "PrepareWrite M s h (nDataLength d) = Return (s1, h1)"
      using assms(2) d PrepareWrite_fork [OF d(1) D(1), of M]
      by (simp add: GetBuffer_def IsShared_def)
    from state_ok_PrepareWrite [OF assms(1) _ this] D show ?thesis by simp
  next
    case False
    then show ?thesis using assms d by (simp add: GetBuffer_def)
  qed
qed

lemma SetAt_ok:
  assumes "state_ok (s, h)"
  shows "returns_ok (SetAt M s h i c)"
proof (rule returns_okI)
  fix s' h' assume r: "SetAt M s h i c = Return (s', h')"
  then obtain d s1 h1 s2 where "GetData s h = Some d"
    and gb: "GetBuffer M s h = Return (s1, h1)"
    and st: "store_char s1 h1 i c = Some s2"
    and sl: "SetLength s2 h1 (nDataLength d) = Return (s', h')"
    by (auto simp: SetAt_def Let_def ReleaseBufferSetLength_eq
        split: option.splits if_splits result.splits)
  from almost_ok_SetLength [OF almost_ok_store_char [OF state_ok_almost
        [OF state_ok_GetBuffer [OF assms gb]] st] sl]
  show "state_ok (s', h')" .
qed

lemma heap_ok_Release:
  assumes "heap_ok s" "Release s p = Some s'"
  shows "heap_ok s'"
proof -
  from assms(2) obtain d where d: "GetData s p = Some d"
    by (auto simp: Release_def split: option.splits)
  show ?thesis
    using assms Release_eq [OF d] d
    by (auto simp: heap_ok_iff GetData_upd split: if_splits)
qed

lemma Release_other:
  assumes "Release s p = Some s'" "a \<noteq> p"
  shows "GetData s' a = GetData s a"
proof -
  from assms(1) obtain d where d: "GetData s p = Some d"
    by (auto simp: Release_def split: option.splits)
  show ?thesis using assms Release_eq [OF d] by (auto simp: GetData_upd)
qed

lemma almost_ok_Release:
  assumes "almost_ok s p" "Release s h = Some s'" "h \<noteq> p"
  shows "almost_ok s' p"
proof -
  from assms(2) obtain d where d: "GetData s h = Some d"
    by (auto simp: Release_def split: option.splits)
  show ?thesis
    using assms Release_eq [OF d] d
    by (auto simp: almost_ok_iff GetData_upd split: if_splits)
qed

lemma state_ok_GetNilString:
  assumes "heap_ok s" "GetData s (NilString M m) \<noteq> None"
    and "mgrGetNilString M m s = (p, s')"
  shows "state_ok (s', p)"
  using assms
  by (auto simp: mgrGetNilString_def Let_def state_ok_iff heap_ok_iff GetData_upd
      split: if_splits dest: GetData_lt)

lemma Empty_ok:
  assumes "state_ok (s, h)"
    and nil: "\<And>m. \<exists>dn. GetData s (NilString M m) = Some dn \<and> nDataLength dn = 0"
  shows "returns_ok (Empty M s h)"
proof (rule returns_okI)
  fix s' h' assume r: "Empty M s h = Return (s', h')"
  from assms(1) obtain d where d: "GetData s h = Some d" "buf_ok d" and hs: "heap_ok s"
    by (auto simp: state_ok_iff heap_ok_iff)
  from nil obtain dn where dn: "GetData s (NilString M (pStringMgr d)) = Some dn"
    "nDataLength dn = 0" by blast
  consider (empty) "nDataLength d = 0" | (locked) "nDataLength d \<noteq> 0" "IsLocked d"
    | (rel) "nDataLength d \<noteq> 0" "\<not> IsLocked d" by blast
  then show "state_ok (s', h')"
  proof cases
    case empty
    then show ?thesis using r d assms(1) by (simp add: Empty_def)
  next
    case locked
    then have "SetLength s h 0 = Return (s', h')" using r d by (simp add: Empty_def)
    from state_ok_SetLength [OF assms(1) this] show ?thesis .
  next
    case rel
    then obtain s1 where s1: "Release s h = Some s1"
      and g: "mgrGetNilString M (pStringMgr d) s1 = (h', s')"
      using r d by (auto simp: Empty_def split: option.splits prod.splits)
    have "NilString M (pStringMgr d) \<noteq> h" using rel dn d by auto
    then have "GetData s1 (NilString M (pStringMgr d)) \<noteq> None"
      using Release_other [OF s1] dn by simp
    from state_ok_GetNilString [OF heap_ok_Release [OF hs s1] this g] show ?thesis .
  qed
qed

lemma almost_ok_mgrAllocate:
  assumes "heap_ok s" "mgrAllocate M m n s = (Some p, s1)" "n \<le> INT_MAX"
  shows "almost_ok s1 p" "p = length s" "\<And>a. a < length s \<Longrightarrow> GetData s1 a = GetData s a"
    "\<exists>d. GetData s1 p = Some d \<and> nAllocLength d = n \<and> nDataLength d = 0"
  using assms
  by (auto simp: mgrAllocate_def almost_ok_iff heap_ok_iff GetData_snoc layout_ok_def
      length_fresh_chars split: if_splits)

lemma FreeExtra_ok:
  assumes "state_ok (s, h)"
  shows "returns_ok (FreeExtra M s h)"
proof (rule returns_okI)
  fix s' h' assume r: "FreeExtra M s h = Return (s', h')"
  from assms(1) obtain d where d: "GetData s h = Some d" "buf_ok d" and hs: "heap_ok s"
    by (auto simp: state_ok_iff heap_ok_iff)
  note D = buf_okD [OF d(2)]
  have hl: "h < length s" using d(1) by (rule GetData_lt)
  let ?n = "nDataLength d"
  show "state_ok (s', h')"
  proof (cases "nAllocLength d = ?n \<or> IsLocked d")
    case True
    then show ?thesis using r d assms by (auto simp: FreeExtra_def Let_def split: if_splits)
  next
    case False
    show ?thesis
    proof (cases "mgrAllocate M (pStringMgr d) ?n s")
      case (Pair po s1)
      show ?thesis
      proof (cases po)
        case None
        then have "s1 = s" using Pair by (auto simp: mgrAllocate_def split: if_splits)
        then have "SetLength s h ?n = Return (s', h')"
          using r d False Pair None by (simp add: FreeExtra_def Let_def)
        from state_ok_SetLength [OF assms this] show ?thesis .
      next
        case (Some p)
        then have al: "mgrAllocate M (pStringMgr d) ?n s = (Some p, s1)" using Pair by simp
        have nm: "?n \<le> INT_MAX" using D by simp
        note A = almost_ok_mgrAllocate [OF hs al nm]
        from r d False al obtain s2 s3 where
          cp: "CopyChars s1 p 0 (Payload h 0) ?n = Some s2" and
          rl: "Release s2 h = Some s3" and
          sl: "SetLength s3 p ?n = Return (s', h')"
          by (auto simp: FreeExtra_def Let_def bind_eq_Some_conv split: option.splits)
        have "h \<noteq> p" using A(2) hl by simp
        from almost_ok_SetLength [OF almost_ok_Release [OF almost_ok_CopyChars [OF A(1) cp] rl this] sl]
        show ?thesis .
      qed
    qed
  qed
qed

lemma SetString_ok:
  assumes "state_ok (s, h)" "n \<le> INT_MAX"
    and nil: "\<And>m. \<exists>dn. GetData s (NilString M m) = Some dn \<and> nDataLength dn = 0"
  shows "returns_ok (SetString M s h p n)"
proof (cases "n = 0")
  case True
  then show ?thesis using Empty_ok [OF assms(1) nil] by (simp add: Empty_SetString)
next
  case False
  show ?thesis
  proof (rule returns_okI)
    fix s' h' assume r: "SetString M s h p n = Return (s', h')"
    from r False obtain d where d: "GetData s h = Some d" and pn: "p \<noteq> Null"
      by (auto simp: SetString_def split: if_splits option.splits)
    obtain s1 h1 where pw: "PrepareWrite M s h n = Return (s1, h1)"
      using r False d pn
      by (cases "PrepareWrite M s h n") (auto simp: SetString_def Let_def GetBuffer_n_def)
    note a1 = state_ok_almost [OF state_ok_PrepareWrite [OF assms(1,2) pw]]
    then obtain d1 where d1: "GetData s1 h1 = Some d1" by (auto simp: almost_ok_iff)
    have "\<exists>s2. almost_ok s2 h1 \<and> SetLength s2 h1 n = Return (s', h')"
    proof (cases "own_offset p h (to_UINT (nDataLength d))")
      case None
      then obtain s2 where cp: "CopyChars s1 h1 0 p n = Some s2"
        and sl: "SetLength s2 h1 n = Return (s', h')"
        using r False d pn pw d1
        by (cases "CopyChars s1 h1 0 p n")
          (auto simp: SetString_def Let_def GetBuffer_n_def ReleaseBufferSetLength_eq)
      then show ?thesis using almost_ok_CopyChars [OF a1 cp] by blast
    next
      case (Some k)
      then obtain s2 where
        cp: "CopyCharsOverlapped s1 h1 (nAllocLength d1) (Payload h1 k) n = Some s2"
        and sl: "SetLength s2 h1 n = Return (s', h')"
        using r False d pn pw d1
        by (cases "CopyCharsOverlapped s1 h1 (nAllocLength d1) (Payload h1 k) n")
          (auto simp: SetString_def Let_def GetBuffer_n_def ReleaseBufferSetLength_eq)
      then show ?thesis using almost_ok_CopyCharsOverlapped [OF a1 cp] by blast
    qed
    then show "state_ok (s', h')" by (auto elim: almost_ok_SetLength)
  qed
qed

lemma StringLength_le: "StringLength s p = Some n \<Longrightarrow> n \<le> INT_MAX"
  using to_int_le by (auto simp: StringLength_def bind_eq_Some_conv INT_MAX_def split: if_splits)

lemma SetString_sz_ok:
  assumes "state_ok (s, h)"
    and nil: "\<And>m. \<exists>dn. GetData s (NilString M m) = Some dn \<and> nDataLength dn = 0"
  shows "returns_ok (SetString_sz M s h p)"
proof (cases "StringLength s p")
  case None
  then show ?thesis by (simp add: SetString_sz_def returns_ok_Throw)
next
  case (Some n)
  then show ?thesis
    using SetString_ok [OF assms(1) StringLength_le [OF Some] nil]
    by (simp add: SetString_sz_def)
qed

lemma Append_ok:
  assumes "state_ok (s, h)"
  shows "returns_ok (Append M s h p n)"
proof (rule returns_okI)
  fix s' h' assume r: "Append M s h p n = Return (s', h')"
  then obtain m s1 h1 off q k s2 where pw: "PrepareWrite M s h (to_int m) = Return (s1, h1)"
    and cp: "CopyChars s1 h1 off q k = Some s2"
    and sl: "SetLength s2 h1 (to_int m) = Return (s', h')"
    by (auto simp: Append_def Let_def GetBuffer_n_def ReleaseBufferSetLength_eq
        split: option.splits if_splits result.splits)
  have "to_int m \<le> INT_MAX" using to_int_le [of m] by (simp add: INT_MAX_def)
  note a1 = state_ok_almost [OF state_ok_PrepareWrite [OF assms this pw]]
  from almost_ok_SetLength [OF almost_ok_CopyChars [OF a1 cp] sl] show "state_ok (s', h')" .
qed

lemma Append_sz_ok: "state_ok (s, h) \<Longrightarrow> returns_ok (Append_sz M s h p)"
  by (cases "StringLength s p") (simp_all add: Append_sz_def returns_ok_Throw Append_ok)

lemma Append_str_ok: "state_ok (s, h) \<Longrightarrow> returns_ok (Append_str M s h src)"
  by (cases "GetData s src") (simp_all add: Append_str_def returns_ok_Throw Append_ok)

lemma AppendChar_ok:
  assumes "state_ok (s, h)"
  shows "returns_ok (AppendChar M s h c)"
proof (rule returns_okI)
  fix s' h' assume r: "AppendChar M s h c = Return (s', h')"
  then obtain m s1 h1 i s2 where pw: "PrepareWrite M s h (to_int m) = Return (s1, h1)"
    and st: "store_char s1 h1 i c = Some s2"
    and sl: "SetLength s2 h1 (to_int m) = Return (s', h')"
    by (auto simp: AppendChar_def Let_def GetBuffer_n_def ReleaseBufferSetLength_eq
        split: option.splits if_splits result.splits)
  have "to_int m \<le> INT_MAX" using to_int_le [of m] by (simp add: INT_MAX_def)
  note a1 = state_ok_almost [OF state_ok_PrepareWrite [OF assms this pw]]
  from almost_ok_SetLength [OF almost_ok_store_char [OF a1 st] sl] show "state_ok (s', h')" .
qed

lemma write_chars_nth_after:
  assumes "off + length cs \<le> i" "i < length xs"
  shows "write_chars xs off cs ! i = xs ! i"
proof -
  have a: "\<not> i < off" "\<not> i - off < length cs" "off \<le> length xs"
    "off + length cs + (i - off - length cs) = i"
    using assms by arith+
  have "write_chars xs off cs ! i = (cs @ drop (off + length cs) xs) ! (i - off)"
    using a by (simp add: write_chars_def nth_append min_absorb2)
  also have "\<dots> = drop (off + length cs) xs ! (i - off - length cs)"
    using a by (simp add: nth_append)
  also have "\<dots> = xs ! (off + length cs + (i - off - length cs))"
    using assms by (intro nth_drop) simp
  finally show ?thesis using a by simp
qed

lemma buf_ok_write_prefix:
  assumes "buf_ok d" "off + length cs \<le> nat (nDataLength d)"
  shows "buf_ok (d\<lparr>data := write_chars (data d) off cs\<rparr>)"
proof -
  note D = buf_okD [OF assms(1)]
  have "off + length cs \<le> length (data d)" using assms(2) D by simp
  moreover have "write_chars (data d) off cs ! nat (nDataLength d) = data d ! nat (nDataLength d)"
    using assms(2) D by (intro write_chars_nth_after) simp_all
  ultimately show ?thesis
    using assms(1) by (simp add: buf_ok_def write_chars_length)
qed

lemma state_ok_CopyChars_prefix:
  assumes "state_ok (s, h)" "GetData s h = Some d" "nDataLength d = n"
    and "CopyChars s h 0 p n = Some s'"
  shows "state_ok (s', h)"
proof (rule CopyChars_SomeD [OF assms(4)], goal_cases)
  case (1 cs dd)
  then have dd: "dd = d" using assms(2) by simp
  have "buf_ok d" using assms(1,2) by (auto simp: state_ok_iff)
  from buf_ok_write_prefix [OF this, of 0 cs] 1 dd assms(3)
  have "buf_ok (d\<lparr>data := write_chars (data d) 0 cs\<rparr>)" by simp
  then show ?case
    using assms(1) 1 dd
    by (auto simp: state_ok_iff GetData_upd split: if_splits dest: GetData_lt)
qed

lemma ctor_alloc_ok:
  assumes hs: "heap_ok s" and n: "n \<le> INT_MAX"
    and al: "mgrAllocate M m n s = (Some p, s1)"
    and sl: "SetLength s1 p n = Return (s2, h)"
    and cp: "CopyChars s2 h 0 q n = Some s3"
  shows "state_ok (s3, h)"
proof -
  note A = almost_ok_mgrAllocate [OF hs al n]
  have ok2: "state_ok (s2, h)" by (rule almost_ok_SetLength [OF A(1) sl])
  from A(4) obtain d where d: "GetData s1 p = Some d" by blast
  note S = SetLength_ReturnD [OF sl d]
  have "GetData s2 h = Some (d\<lparr>nDataLength := n, data := (data d)[nat n := NUL]\<rparr>)"
    using S(1,5) d by (auto simp: GetData_upd dest: GetData_lt)
  from state_ok_CopyChars_prefix [OF ok2 this _ cp] show ?thesis by simp
qed

lemma CSimpleStringT_n_ok:
  assumes "heap_ok s" "n \<le> INT_MAX"
  shows "returns_ok (CSimpleStringT_n M s p n m)"
proof (rule returns_okI)
  fix s' h' assume r: "CSimpleStringT_n M s p n m = Return (s', h')"
  then obtain a s1 s2 where "mgrAllocate M m n s = (Some a, s1)"
    "SetLength s1 a n = Return (s2, h')" "CopyChars s2 h' 0 p n = Some s'"
    by (auto simp: CSimpleStringT_n_def split: if_splits option.splits result.splits prod.splits)
  from ctor_alloc_ok [OF assms this] show "state_ok (s', h')" .
qed

lemma CSimpleStringT_sz_ok:
  assumes "heap_ok s"
  shows "returns_ok (CSimpleStringT_sz M s p m)"
proof (rule returns_okI)
  fix s' h' assume r: "CSimpleStringT_sz M s p m = Return (s', h')"
  then obtain n a s1 s2 where n: "StringLength s p = Some n" and
    c: "mgrAllocate M m n s = (Some a, s1)"
    "SetLength s1 a n = Return (s2, h')" "CopyChars s2 h' 0 p n = Some s'"
    by (auto simp: CSimpleStringT_sz_def split: if_splits option.splits result.splits prod.splits)
  from ctor_alloc_ok [OF assms StringLength_le [OF n] c] show "state_ok (s', h')" .
qed

lemma CSimpleStringT_ok:
  assumes "heap_ok s" "GetData s (NilString M m) \<noteq> None"
  shows "state_ok (CSimpleStringT M s m)"
proof (cases "mgrGetNilString M m s")
  case (Pair p s')
  from state_ok_GetNilString [OF assms Pair] Pair show ?thesis
    by (simp add: CSimpleStringT_def)
qed

lemma CloneData_ok:
  assumes hs: "heap_ok s" and r: "CloneData M s p = Return (s', h')"
  shows "state_ok (s', h')" "h' = p \<or> h' = length s"
    "\<And>a. a \<noteq> p \<Longrightarrow> a < length s \<Longrightarrow> GetData s' a = GetData s a"
    "GetData s' p \<noteq> None"
    "\<exists>d. GetData s p = Some d \<and> GetData s' p = Some (if h' = p then AddRef d else d)"
proof -
  from r obtain d where d: "GetData s p = Some d"
    by (auto simp: CloneData_def split: option.splits)
  have ok: "buf_ok d" using hs d by (auto simp: heap_ok_iff)
  note D = buf_okD [OF ok]
  have pl: "p < length s" using d by (rule GetData_lt)
  let ?n = "nDataLength d"
  have "state_ok (s', h') \<and> (h' = p \<or> h' = length s) \<and>
        (\<forall>a. a \<noteq> p \<longrightarrow> a < length s \<longrightarrow> GetData s' a = GetData s a) \<and> GetData s' p \<noteq> None \<and>
        GetData s' p = Some (if h' = p then AddRef d else d)"
  proof (cases "\<not> IsLocked d \<and> Clone M (pStringMgr d) = pStringMgr d")
    case True
    then have "s' = s[p := Some (AddRef d)]" "h' = p"
      using r d by (auto simp: CloneData_def Let_def)
    then show ?thesis
      using hs d ok pl by (auto simp: state_ok_iff heap_ok_iff GetData_upd split: if_splits)
  next
    case False
    let ?new = "\<lparr>pStringMgr = Clone M (pStringMgr d), nDataLength = 0, nAllocLength = ?n,
        nRefs = 1, data = fresh_chars M 0 (nat ?n + 1)\<rparr>"
    have adm: "Admits M (Clone M (pStringMgr d)) ?n"
      using r d False by (auto simp: CloneData_def Let_def mgrAllocate_def split: if_splits)
    have al: "mgrAllocate M (Clone M (pStringMgr d)) ?n s = (Some (length s), s @ [Some ?new])"
      using adm D by (simp add: mgrAllocate_def)
    have pk: "poke (s @ [Some ?new]) (length s) (\<lambda>n. n\<lparr>nDataLength := ?n\<rparr>) =
        Some (s @ [Some (?new\<lparr>nDataLength := ?n\<rparr>)])"
      by (simp add: poke_def GetData_snoc)
    have small: "?n < INT_MAX"
    proof (rule ccontr)
      assume "\<not> ?n < INT_MAX"
      then have "?n = INT_MAX" using D by simp
      then have "to_int (?n + 1) < 0" by (simp add: to_int_def INT_MAX_def)
      then have "CopyChars s2 a 0 (Payload p 0) (to_int (?n + 1)) = None" for s2 a
        by (simp add: CopyChars_def)
      then show False
        using r d False al pk by (simp add: CloneData_def Let_def)
    qed
    have ti: "to_int (?n + 1) = ?n + 1"
      using small D by (intro to_int_id) (simp_all add: INT_MAX_def)
    have cp: "CopyChars (s @ [Some (?new\<lparr>nDataLength := ?n\<rparr>)]) (length s) 0 (Payload p 0) (?n + 1) =
        Some ((s @ [Some (?new\<lparr>nDataLength := ?n\<rparr>)])[length s :=
          Some ((?new\<lparr>nDataLength := ?n\<rparr>)\<lparr>data := write_chars (data (?new\<lparr>nDataLength := ?n\<rparr>)) (nat 0)
            (take (nat (?n + 1)) (drop (nat 0) (data d)))\<rparr>)])"
      using d pl D
      by (intro CopyChars_other) (simp_all add: GetData_snoc length_fresh_chars nat_add_distrib)
    let ?d' = "\<lparr>pStringMgr = Clone M (pStringMgr d), nDataLength = ?n, nAllocLength = ?n,
        nRefs = 1, data = take (nat ?n + 1) (data d)\<rparr>"
    have w: "write_chars (fresh_chars M 0 (nat ?n + 1)) 0 (take (nat (?n + 1)) (data d)) =
        take (nat ?n + 1) (data d)"
      using D by (simp add: write_chars_def nat_add_distrib length_fresh_chars min_absorb2)
    have res: "s' = s @ [Some ?d']" "h' = length s"
      using r d False al pk cp w ti by (simp_all add: CloneData_def Let_def)
    have "buf_ok ?d'" using D by (simp add: buf_ok_def)
    then show ?thesis
      using res hs d pl by (auto simp: state_ok_iff heap_ok_iff GetData_snoc split: if_splits)
  qed
  then show "state_ok (s', h')" "h' = p \<or> h' = length s"
    "\<And>a. a \<noteq> p \<Longrightarrow> a < length s \<Longrightarrow> GetData s' a = GetData s a"
    "GetData s' p \<noteq> None"
    "\<exists>d. GetData s p = Some d \<and> GetData s' p = Some (if h' = p then AddRef d else d)"
    using d by blast+
qed

lemma CSimpleStringT_copy_ok: "heap_ok s \<Longrightarrow> returns_ok (CSimpleStringT_copy M s src)"
  by (rule returns_okI) (auto simp: CSimpleStringT_copy_def dest: CloneData_ok(1))

lemma assign_ok:
  assumes "state_ok (s, h)"
    and nil: "\<And>m. \<exists>dn. GetData s (NilString M m) = Some dn \<and> nDataLength dn = 0"
  shows "returns_ok (assign M s h src)"
proof (cases "GetData s src")
  case None
  then show ?thesis by (simp add: assign_def returns_ok_Throw)
next
  case (Some ds)
  from assms(1) obtain dt where dt: "GetData s h = Some dt" and hs: "heap_ok s"
    by (auto simp: state_ok_iff heap_ok_iff)
  have ds: "buf_ok ds" using hs Some by (auto simp: heap_ok_iff)
  note Ds = buf_okD [OF ds]
  consider (same) "src = h" | (copy) "src \<noteq> h" "IsLocked dt \<or> pStringMgr ds \<noteq> pStringMgr dt"
    | (clone) "src \<noteq> h" "\<not> (IsLocked dt \<or> pStringMgr ds \<noteq> pStringMgr dt)" by blast
  then show ?thesis
  proof cases
    case same
    then show ?thesis using Some dt assms(1) by (simp add: assign_def returns_ok_Return)
  next
    case copy
    then have "assign M s h src = SetString M s h (Payload src 0) (nDataLength ds)"
      using Some dt by (simp add: assign_def)
    then show ?thesis using SetString_ok [OF assms(1) Ds(4) [THEN order_trans [OF Ds(2)]] nil] by simp
  next
    case clone
    show ?thesis
    proof (rule returns_okI)
      fix s' h' assume r: "assign M s h src = Return (s', h')"
      then obtain s1 where cd: "CloneData M s src = Return (s1, h')"
        and rl: "Release s1 h = Some s'"
        using Some dt clone
        by (auto simp: assign_def split: result.splits option.splits prod.splits)
      note C = CloneData_ok [OF hs cd]
      have hl: "h < length s" using dt by (rule GetData_lt)
      have "h' \<noteq> h" using C(2) clone(1) hl by auto
      then have "GetData s' h' = GetData s1 h'" using Release_other [OF rl] by simp
      moreover have "heap_ok s'"
        using heap_ok_Release [OF _ rl] C(1) by (simp add: state_ok_def)
      ultimately show "state_ok (s', h')" using C(1) by (simp add: state_ok_def)
    qed
  qed
qed

lemma assign_sz_ok:
  assumes "state_ok (s, h)"
    and nil: "\<And>m. \<exists>dn. GetData s (NilString M m) = Some dn \<and> nDataLength dn = 0"
  shows "returns_ok (assign_sz M s h p)"
  using SetString_sz_ok [OF assms] by (simp add: assign_sz_def)

section \<open>The operations keep the nil buffers and stay within defined behaviour\<close>

lemma pin_iff:
  "pinned (s, h) a \<longleftrightarrow>
     (\<exists>d. GetData s a = Some d \<and> nAllocLength d = 0 \<and> (if a = h then 2 else 1) < nRefs d)"
  by (auto simp: pinned_def split: option.splits)

lemma pin_lt: "pinned (s, h) a \<Longrightarrow> a < length s"
  by (auto simp: pin_iff dest: GetData_lt)

lemma nil_ok_pin: "nil_ok M s \<longleftrightarrow> (\<forall>m. pinned (s, length s) (NilString M m))"
  by (auto simp: nil_ok_def pinned_def GetData_length split: option.splits dest: GetData_lt)

lemma pin_write:
  assumes "pinned (s, h) a" "GetData s b = Some db" "nAllocLength d' = nAllocLength db"
    "nRefs d' = nRefs db"
  shows "pinned (s[b := Some d'], h) a"
  using assms by (auto simp: pin_iff GetData_upd dest: GetData_lt)

lemma pin_SetLength:
  assumes "SetLength s b n = Return (s', h')" "pinned (s, b) a"
  shows "pinned (s', h') a"
proof -
  from assms(1) obtain d where d: "GetData s b = Some d"
    by (auto simp: SetLength_def split: option.splits)
  note S = SetLength_ReturnD [OF assms(1) d]
  show ?thesis
    unfolding S(1,5) by (rule pin_write [OF assms(2) d]) simp_all
qed

lemma pin_CopyChars:
  assumes "CopyChars s b off p n = Some s'" "pinned (s, h) a"
  shows "pinned (s', h) a"
proof (rule CopyChars_SomeD [OF assms(1)], goal_cases)
  case (1 cs dd)
  show ?case unfolding 1(7) by (rule pin_write [OF assms(2) 1(2)]) simp_all
qed

lemma pin_CopyCharsOverlapped:
  assumes "CopyCharsOverlapped s b m p n = Some s'" "pinned (s, h) a"
  shows "pinned (s', h) a"
proof (rule CopyCharsOverlapped_SomeD [OF assms(1)], goal_cases)
  case (1 cs dd)
  show ?case unfolding 1(5) by (rule pin_write [OF assms(2) 1(2)]) simp_all
qed

lemma pin_store_char:
  assumes "store_char s b i c = Some s'" "pinned (s, h) a"
  shows "pinned (s', h) a"
proof -
  from assms(1) obtain d where d: "GetData s b = Some d"
    "s' = s[b := Some (d\<lparr>data := (data d)[nat i := c]\<rparr>)]"
    by (auto simp: store_char_def bind_eq_Some_conv split: if_splits)
  show ?thesis unfolding d(2) by (rule pin_write [OF assms(2) d(1)]) simp_all
qed

lemma PrepareWrite_shared:
  assumes "GetData s h = Some d" "1 < nRefs d" "PrepareWrite M s h n = Return (s1, h1)"
  shows "h1 = length s"
proof -
  have n0: "0 \<le> n" using assms(3) by (auto simp: PrepareWrite_def split: if_splits)
  have "Fork M s h (max n (nDataLength d)) = Return (s1, h1)"
    using assms(3) PrepareWrite_fork [OF assms(1) n0 assms(2)] by simp
  then show ?thesis
    using assms(1)
    by (auto simp: Fork_def Let_def mgrAllocate_def split: if_splits option.splits prod.splits)
qed

lemma pin_PrepareWrite:
  assumes live: "GetData s h = Some d" and ok: "buf_ok d" and n: "n \<le> INT_MAX"
    and pw: "PrepareWrite M s h n = Return (s1, h1)" and p: "pinned (s, h) a"
  shows "pinned (s1, h1) a"
proof (rule PrepareWrite_Return [OF live ok n pw], goal_cases)
  case (1 d1)
  note other = 1(7) and h1 = 1(9) and old = 1(10)
  have al: "a < length s" using p by (rule pin_lt)
  have hl: "h < length s" using live by (rule GetData_lt)
  show ?case
  proof (cases "a = h")
    case True
    then have sh: "2 < nRefs d" "nAllocLength d = 0" using p live by (auto simp: pin_iff)
    then have "h1 = length s" using PrepareWrite_shared [OF live _ pw] by simp
    then show ?thesis using old sh True hl by (auto simp: pin_iff)
  next
    case False
    then have "a \<noteq> h1" using h1 al by auto
    then show ?thesis using p other [OF False al] False by (auto simp: pin_iff)
  qed
qed

lemma pin_GetBuffer:
  assumes live: "GetData s h = Some d" and ok: "buf_ok d"
    and gb: "GetBuffer M s h = Return (s1, h1)" and p: "pinned (s, h) a"
  shows "pinned (s1, h1) a"
proof (cases "IsShared d")
  case True
  note D = buf_okD [OF ok]
  have "PrepareWrite M s h (nDataLength d) = Return (s1, h1)"
    using gb live True PrepareWrite_fork [OF live D(1), of M]
    by (simp add: GetBuffer_def IsShared_def)
  from pin_PrepareWrite [OF live ok _ this p] D show ?thesis by simp
next
  case False
  then show ?thesis using gb live p by (simp add: GetBuffer_def)
qed

lemma pin_Release:
  assumes "Release s h = Some s'" "pinned (s, h) a" "a \<noteq> h'"
  shows "pinned (s', h') a"
proof -
  from assms(1) obtain d where d: "GetData s h = Some d"
    by (auto simp: Release_def split: option.splits)
  show ?thesis
    using assms Release_eq [OF d] d
    by (auto simp: pin_iff GetData_upd split: if_splits)
qed

lemma pin_mgrAllocate:
  assumes "mgrAllocate M m n s = (po, s1)" "pinned (s, h) a"
  shows "pinned (s1, h) a"
  using assms pin_lt [OF assms(2)]
  by (auto simp: mgrAllocate_def pin_iff GetData_snoc split: if_splits)

lemma pin_handle:
  assumes "pinned (s, h) a" "a \<noteq> h'"
  shows "pinned (s, h') a"
  using assms by (auto simp: pin_iff split: if_splits)

lemma pin_mgrGetNilString:
  assumes "mgrGetNilString M m s = (p, s')" "pinned (s, h) a" "p \<noteq> h"
  shows "pinned (s', p) a"
  using assms
  by (auto simp: mgrGetNilString_def Let_def pin_iff GetData_upd AddRef_def
      split: option.splits if_splits dest: GetData_lt)

lemma no_fault_Return [simp]: "no_fault (Return x)"
  by (simp add: no_fault_def)

lemma no_fault_Throw [simp]: "no_fault (Throw e st) = (e \<noteq> Fault)"
  by (simp add: no_fault_def)

lemma state_okD:
  assumes "state_ok (s, h)"
  obtains d where "GetData s h = Some d" "buf_ok d" "heap_ok s"
  using assms by (auto simp: state_ok_iff heap_ok_iff)

lemma almost_okD:
  assumes "almost_ok s h"
  obtains d where "GetData s h = Some d" "layout_ok d"
  using assms by (auto simp: almost_ok_iff)

lemma SetLength_no_fault: "almost_ok s h \<Longrightarrow> no_fault (SetLength s h n)"
  by (erule almost_okD) (auto simp: SetLength_def layout_ok_def)

lemma Fork_no_fault:
  assumes live: "GetData s h = Some d" and shared: "1 < nRefs d" and n: "0 \<le> n"
    and len: "0 \<le> nDataLength d" "nat (nDataLength d) < length (data d)"
    and small: "min (nDataLength d) n < INT_MAX"
  shows "no_fault (Fork M s h n)"
proof (cases "Admits M (Clone M (pStringMgr d)) n")
  case True
  then show ?thesis using Fork_shared [OF live shared n True len small] by simp
next
  case False
  then show ?thesis using live by (simp add: Fork_def Let_def mgrAllocate_def)
qed

lemma PrepareWrite_no_fault:
  assumes live: "GetData s h = Some d" and ok: "buf_ok d"
    and c: "nDataLength d < INT_MAX \<or> nRefs d \<le> 1 \<or> n < 0"
  shows "no_fault (PrepareWrite M s h n)"
proof -
  note D = buf_okD [OF ok]
  consider (neg) "n < 0" | (fork) "0 \<le> n" "1 < nRefs d"
    | (keep) "0 \<le> n" "nRefs d \<le> 1" "n \<le> nAllocLength d"
    | (grow) "0 \<le> n" "nRefs d \<le> 1" "nAllocLength d < n" by linarith
  then show ?thesis
  proof cases
    case neg
    then show ?thesis by (simp add: PrepareWrite_negative)
  next
    case fork
    have "min (nDataLength d) (max n (nDataLength d)) < INT_MAX" using c fork by auto
    moreover have "0 \<le> max n (nDataLength d)" using fork by simp
    ultimately show ?thesis
      using Fork_no_fault [OF live fork(2) _ D(1,6)] PrepareWrite_fork [OF live fork]
      by simp
  next
    case keep
    then show ?thesis using PrepareWrite_keep [OF live keep] by simp
  next
    case grow
    have g: "nAllocLength d < grow_length (nAllocLength d) n"
      using grow_length_ge [of n "nAllocLength d"] grow by linarith
    show ?thesis
      using PrepareWrite_grow [OF live grow D(2)] Reallocate_grow [OF live g D(3,5), of M]
      by simp
  qed
qed

lemma GetBuffer_PrepareWrite:
  assumes "GetData s h = Some d" "buf_ok d"
  shows "GetBuffer M s h = PrepareWrite M s h (nDataLength d)"
proof (cases "IsShared d")
  case True
  then show ?thesis
    using assms PrepareWrite_fork [OF assms(1) buf_okD(1) [OF assms(2)], of M]
    by (simp add: GetBuffer_def IsShared_def)
next
  case False
  then show ?thesis
    using assms PrepareWrite_keep [OF assms(1) buf_okD(1) [OF assms(2)], of M] buf_okD(2) [OF assms(2)]
    by (simp add: GetBuffer_def IsShared_def)
qed

lemma Truncate_pin:
  assumes st: "state_ok (s, h)" and n: "n \<le> INT_MAX"
    and r: "Truncate M s h n = Return (s', h')" and p: "pinned (s, h) a"
  shows "pinned (s', h') a"
proof -
  from st obtain d where d: "GetData s h = Some d" "buf_ok d" by (rule state_okD)
  from r obtain s1 h1 where pw: "PrepareWrite M s h n = Return (s1, h1)"
    and sl: "SetLength s1 h1 n = Return (s', h')"
    by (auto simp: Truncate_def GetBuffer_n_def ReleaseBufferSetLength_eq split: result.splits)
  from pin_SetLength [OF sl pin_PrepareWrite [OF d n pw p]] show ?thesis .
qed

lemma Truncate_no_fault:
  assumes st: "state_ok (s, h)" and n: "n \<le> INT_MAX" and sh: "short s h"
  shows "no_fault (Truncate M s h n)"
proof -
  from st obtain d where d: "GetData s h = Some d" "buf_ok d" by (rule state_okD)
  have c: "nDataLength d < INT_MAX \<or> nRefs d \<le> 1 \<or> n < 0" using sh d by (simp add: short_def)
  show ?thesis
  proof (cases "PrepareWrite M s h n")
    case (Throw e x)
    then show ?thesis
      using PrepareWrite_no_fault [OF d c, of M] by (simp add: Truncate_def GetBuffer_n_def)
  next
    case (Return x)
    obtain s1 h1 where x: "x = (s1, h1)" by (cases x)
    from state_ok_almost [OF state_ok_PrepareWrite [OF st n Return [unfolded x]]]
    show ?thesis
      using Return x
      by (simp add: Truncate_def GetBuffer_n_def ReleaseBufferSetLength_eq SetLength_no_fault)
  qed
qed

lemma SetAt_pin:
  assumes st: "state_ok (s, h)"
    and r: "SetAt M s h i c = Return (s', h')" and p: "pinned (s, h) a"
  shows "pinned (s', h') a"
proof -
  from st obtain d where d: "GetData s h = Some d" "buf_ok d" by (rule state_okD)
  from r d obtain s1 h1 s2 where gb: "GetBuffer M s h = Return (s1, h1)"
    and sc: "store_char s1 h1 i c = Some s2"
    and sl: "SetLength s2 h1 (nDataLength d) = Return (s', h')"
    by (auto simp: SetAt_def Let_def ReleaseBufferSetLength_eq
        split: option.splits if_splits result.splits)
  from pin_SetLength [OF sl pin_store_char [OF sc pin_GetBuffer [OF d gb p]]] show ?thesis .
qed

lemma SetAt_no_fault:
  assumes st: "state_ok (s, h)" and sh: "short s h"
  shows "no_fault (SetAt M s h i c)"
proof -
  from st obtain d where d: "GetData s h = Some d" "buf_ok d" by (rule state_okD)
  note D = buf_okD [OF d(2)]
  have c: "nDataLength d < INT_MAX \<or> nRefs d \<le> 1 \<or> nDataLength d < 0"
    using sh d by (simp add: short_def)
  have n: "nDataLength d \<le> INT_MAX" using D by simp
  note G = GetBuffer_PrepareWrite [OF d, of M]
  show ?thesis
  proof (cases "i < 0 \<or> nDataLength d \<le> i")
    case True
    then show ?thesis using d by (auto simp: SetAt_def)
  next
    case False
    show ?thesis
    proof (cases "PrepareWrite M s h (nDataLength d)")
      case (Throw e x)
      then show ?thesis
        using PrepareWrite_no_fault [OF d c, of M] False d G by (simp add: SetAt_def)
    next
      case (Return x)
      obtain s1 h1 where x: "x = (s1, h1)" by (cases x)
      note pw = Return [unfolded x]
      show ?thesis
      proof (rule PrepareWrite_Return [OF d n pw], goal_cases)
        case (1 d1)
        note D1 = buf_okD [OF 1(2)]
        have "nat i < length (data d1)" using False D1 1(5) by linarith
        then have sc: "store_char s1 h1 i c =
            Some (s1[h1 := Some (d1\<lparr>data := (data d1)[nat i := c]\<rparr>)])"
          using 1(1) False by (simp add: store_char_def)
        from almost_ok_store_char [OF state_ok_almost [OF state_ok_PrepareWrite [OF st n pw]] sc]
        show ?case
          using False d G pw sc
          by (simp add: SetAt_def ReleaseBufferSetLength_eq SetLength_no_fault)
      qed
    qed
  qed
qed

lemma Empty_pin:
  assumes st: "state_ok (s, h)"
    and r: "Empty M s h = Return (s', h')" and p: "pinned (s, h) a"
  shows "pinned (s', h') a"
proof -
  from st obtain d where d: "GetData s h = Some d" "buf_ok d" by (rule state_okD)
  note D = buf_okD [OF d(2)]
  consider (empty) "nDataLength d = 0" | (locked) "nDataLength d \<noteq> 0" "IsLocked d"
    | (rel) "nDataLength d \<noteq> 0" "\<not> IsLocked d" by blast
  then show ?thesis
  proof cases
    case empty
    then show ?thesis using r d p by (simp add: Empty_def)
  next
    case locked
    then have "SetLength s h 0 = Return (s', h')" using r d by (simp add: Empty_def)
    from pin_SetLength [OF this p] show ?thesis .
  next
    case rel
    then obtain s1 where s1: "Release s h = Some s1"
      and g: "mgrGetNilString M (pStringMgr d) s1 = (h', s')"
      using r d by (auto simp: Empty_def split: option.splits prod.splits)
    have ah: "a \<noteq> h" using p d rel D by (auto simp: pin_iff)
    have hl: "h < length s" using d(1) by (rule GetData_lt)
    have p1: "pinned (s1, length s) a"
      using pin_Release [OF s1 p, of "length s"] pin_lt [OF p] by simp
    have len: "length s1 = length s" using s1 Release_eq [OF d(1)] by auto
    have h': "h' = NilString M (pStringMgr d)" using g by (auto simp: mgrGetNilString_def Let_def)
    show ?thesis
    proof (cases "GetData s1 h'")
      case None
      then have "s' = s1" using g h' by (auto simp: mgrGetNilString_def Let_def)
      moreover have "a \<noteq> h'" using None p1 by (auto simp: pin_iff)
      ultimately show ?thesis using pin_handle [OF p1] by simp
    next
      case (Some dn)
      then have "h' < length s1" by (rule GetData_lt)
      then have "h' \<noteq> length s" using len by simp
      from pin_mgrGetNilString [OF g p1 this] show ?thesis .
    qed
  qed
qed

lemma Empty_no_fault:
  assumes st: "state_ok (s, h)"
  shows "no_fault (Empty M s h)"
proof -
  from st obtain d where d: "GetData s h = Some d" "buf_ok d" by (rule state_okD)
  show ?thesis
    using d SetLength_no_fault [OF state_ok_almost [OF st], of 0] Release_eq [OF d(1)]
    by (simp add: Empty_def split: prod.splits)
qed

lemma FreeExtra_pin:
  assumes st: "state_ok (s, h)"
    and r: "FreeExtra M s h = Return (s', h')" and p: "pinned (s, h) a"
  shows "pinned (s', h') a"
proof -
  from st obtain d where d: "GetData s h = Some d" "buf_ok d" by (rule state_okD)
  let ?n = "nDataLength d"
  show ?thesis
  proof (cases "nAllocLength d = ?n \<or> IsLocked d")
    case True
    then show ?thesis using r d p by (auto simp: FreeExtra_def Let_def split: if_splits)
  next
    case False
    show ?thesis
    proof (cases "mgrAllocate M (pStringMgr d) ?n s")
      case (Pair po s1)
      note p1 = pin_mgrAllocate [OF Pair p]
      show ?thesis
      proof (cases po)
        case None
        then have "SetLength s1 h ?n = Return (s', h')"
          using r d False Pair by (simp add: FreeExtra_def Let_def)
        from pin_SetLength [OF this p1] show ?thesis .
      next
        case (Some q)
        then have q: "q = length s" using Pair by (auto simp: mgrAllocate_def split: if_splits)
        from r d False Pair Some obtain s2 s3 where
          cp: "CopyChars s1 q 0 (Payload h 0) ?n = Some s2" and
          rl: "Release s2 h = Some s3" and
          sl: "SetLength s3 q ?n = Return (s', h')"
          by (auto simp: FreeExtra_def Let_def bind_eq_Some_conv split: option.splits)
        have aq: "a \<noteq> q" using q pin_lt [OF p] by simp
        from pin_Release [OF rl pin_CopyChars [OF cp p1] aq] have "pinned (s3, q) a" .
        from pin_SetLength [OF sl this] show ?thesis .
      qed
    qed
  qed
qed

lemma FreeExtra_no_fault:
  assumes st: "state_ok (s, h)"
  shows "no_fault (FreeExtra M s h)"
proof -
  from st obtain d where d: "GetData s h = Some d" "buf_ok d" and hs: "heap_ok s"
    by (rule state_okD)
  note D = buf_okD [OF d(2)]
  have hl: "h < length s" using d(1) by (rule GetData_lt)
  let ?n = "nDataLength d"
  show ?thesis
  proof (cases "nAllocLength d = ?n \<or> IsLocked d")
    case True
    then show ?thesis using d by (auto simp: FreeExtra_def Let_def)
  next
    case False
    show ?thesis
    proof (cases "Admits M (pStringMgr d) ?n")
      case no: False
      then have "mgrAllocate M (pStringMgr d) ?n s = (None, s)" by (simp add: mgrAllocate_def)
      then show ?thesis
        using d False SetLength_no_fault [OF state_ok_almost [OF st], of ?n]
        by (simp add: FreeExtra_def Let_def)
    next
      case True
      let ?new = "\<lparr>pStringMgr = pStringMgr d, nDataLength = 0, nAllocLength = ?n, nRefs = 1,
          data = fresh_chars M 0 (nat ?n + 1)\<rparr>"
      have al: "mgrAllocate M (pStringMgr d) ?n s = (Some (length s), s @ [Some ?new])"
        using True D by (simp add: mgrAllocate_def)
      have nm: "?n \<le> INT_MAX" using D by simp
      note A = almost_ok_mgrAllocate [OF hs al nm]
      have cp: "CopyChars (s @ [Some ?new]) (length s) 0 (Payload h 0) ?n =
          Some ((s @ [Some ?new])[length s := Some (?new\<lparr>data :=
             write_chars (data ?new) (nat 0) (take (nat ?n) (drop (nat 0) (data d)))\<rparr>)])"
        using d hl D
        by (intro CopyChars_other) (simp_all add: GetData_snoc length_fresh_chars)
      let ?s2 = "(s @ [Some ?new])[length s := Some (?new\<lparr>data :=
             write_chars (data ?new) (nat 0) (take (nat ?n) (drop (nat 0) (data d)))\<rparr>)]"
      have "GetData ?s2 h = Some d" using d hl by (simp add: GetData_upd GetData_snoc)
      note rl = Release_eq [OF this]
      let ?s3 = "?s2[h := (if nRefs d \<le> 1 then None else Some (d\<lparr>nRefs := nRefs d - 1\<rparr>))]"
      have "almost_ok ?s3 (length s)"
        by (rule almost_ok_Release [OF almost_ok_CopyChars [OF A(1) cp] rl]) (use hl in simp)
      from SetLength_no_fault [OF this, of ?n] show ?thesis
        using d False al cp rl by (simp add: FreeExtra_def Let_def)
    qed
  qed
qed

lemma AppendChar_pin:
  assumes st: "state_ok (s, h)"
    and r: "AppendChar M s h c = Return (s', h')" and p: "pinned (s, h) a"
  shows "pinned (s', h') a"
proof -
  from st obtain d where d: "GetData s h = Some d" "buf_ok d" by (rule state_okD)
  from r obtain m s1 h1 i s2 where pw: "PrepareWrite M s h (to_int m) = Return (s1, h1)"
    and sc: "store_char s1 h1 i c = Some s2"
    and sl: "SetLength s2 h1 (to_int m) = Return (s', h')"
    by (auto simp: AppendChar_def Let_def GetBuffer_n_def ReleaseBufferSetLength_eq
        split: option.splits if_splits result.splits)
  have "to_int m \<le> INT_MAX" using to_int_le [of m] by (simp add: INT_MAX_def)
  from pin_SetLength [OF sl pin_store_char [OF sc pin_PrepareWrite [OF d this pw p]]]
  show ?thesis .
qed

lemma AppendChar_no_fault:
  assumes st: "state_ok (s, h)"
  shows "no_fault (AppendChar M s h c)"
proof -
  from st obtain d where d: "GetData s h = Some d" "buf_ok d" by (rule state_okD)
  note D = buf_okD [OF d(2)]
  let ?old = "nDataLength d"
  have u: "to_UINT ?old = ?old" using D by (intro to_UINT_id) (simp_all add: INT_MAX_def)
  show ?thesis
  proof (cases "?old = INT_MAX")
    case True
    then have "to_int (?old + 1) < 0" by (simp add: to_int_def INT_MAX_def)
    then show ?thesis
      using d u by (simp add: AppendChar_def Let_def GetBuffer_n_def PrepareWrite_negative)
  next
    case False
    then have sm: "?old < INT_MAX" using D by simp
    then have t: "to_int (?old + 1) = ?old + 1"
      using D by (intro to_int_id) (simp_all add: INT_MAX_def)
    have n: "?old + 1 \<le> INT_MAX" using sm by simp
    have c: "?old < INT_MAX \<or> nRefs d \<le> 1 \<or> ?old + 1 < 0" using sm by simp
    show ?thesis
    proof (cases "PrepareWrite M s h (?old + 1)")
      case (Throw e x)
      then show ?thesis
        using PrepareWrite_no_fault [OF d c, of M] d u t
        by (simp add: AppendChar_def Let_def GetBuffer_n_def)
    next
      case (Return x)
      obtain s1 h1 where x: "x = (s1, h1)" by (cases x)
      note pw = Return [unfolded x]
      show ?thesis
      proof (rule PrepareWrite_Return [OF d n pw], goal_cases)
        case (1 d1)
        note D1 = buf_okD [OF 1(2)]
        have "nat ?old < length (data d1)" using D D1 1(3) by linarith
        then have sc: "store_char s1 h1 ?old c =
            Some (s1[h1 := Some (d1\<lparr>data := (data d1)[nat ?old := c]\<rparr>)])"
          using 1(1) D by (simp add: store_char_def)
        from almost_ok_store_char [OF state_ok_almost [OF state_ok_PrepareWrite [OF st n pw]] sc]
        show ?case
          using d u t pw sc
          by (simp add: AppendChar_def Let_def GetBuffer_n_def ReleaseBufferSetLength_eq
              SetLength_no_fault)
      qed
    qed
  qed
qed

lemma ReleaseBuffer_SetLength:
  assumes "almost_ok s h"
  shows "\<exists>k. ReleaseBuffer s h n = SetLength s h k"
proof (cases "n = - 1")
  case False
  then show ?thesis by (auto simp: ReleaseBuffer_def)
next
  case True
  from assms obtain d where d: "GetData s h = Some d" "layout_ok d" by (rule almost_okD)
  have a: "0 \<le> nAllocLength d" "nAllocLength d \<le> 2147483647"
    "length (data d) = nat (nAllocLength d) + 1"
    using d(2) by (simp_all add: layout_ok_def INT_MAX_def)
  have z: "to_size_t (nAllocLength d) = nat (nAllocLength d)"
    using a by (intro to_size_t_id) simp_all
  have cs: "chars_at s (Payload h 0) = Some (data d)" using d by (simp add: chars_at_def)
  have "length (takeWhile (\<lambda>c. c \<noteq> NUL) (data d)) \<le> length (data d)"
    by (rule length_takeWhile_le)
  then have "\<exists>k. strnlen (data d) (nat (nAllocLength d)) = Some k"
    using a by (auto simp: strnlen_def Let_def)
  then have "\<exists>k. StringLengthN s (Payload h 0) (nat (nAllocLength d)) = Some k"
    using cs by (auto simp: StringLengthN_def)
  then show ?thesis using True d z by (auto simp: ReleaseBuffer_def)
qed

lemma readable_chars:
  assumes hs: "heap_ok s" and rd: "readable s p n" and p: "p \<noteq> Null"
  shows "\<exists>cs. chars_at s p = Some cs \<and> nat n \<le> length cs"
proof (cases p)
  case Null
  then show ?thesis using p by simp
next
  case (Mem cs)
  then show ?thesis using rd by (auto simp: readable_def chars_at_def)
next
  case (Payload a k)
  then obtain da where da: "GetData s a = Some da" "0 \<le> k" "k \<le> nDataLength da"
    "k + n \<le> nDataLength da + 1"
    using rd by (auto simp: readable_def split: option.splits)
  have "buf_ok da" using hs da(1) by (auto simp: heap_ok_iff)
  note D = buf_okD [OF this]
  have "nat k \<le> length (data da)" "nat n \<le> length (data da) - nat k"
    using da D by linarith+
  then show ?thesis using Payload da by (simp add: chars_at_def)
qed

lemma strnlen_fits: "n \<le> length cs \<Longrightarrow> \<exists>k. strnlen cs n = Some k"
  using length_takeWhile_le [of "\<lambda>c. c \<noteq> NUL" cs] by (auto simp: strnlen_def Let_def)

lemma readable_StringLengthN:
  assumes "heap_ok s" "readable s p n"
  shows "\<exists>k. StringLengthN s p (nat n) = Some k"
proof (cases "p = Null")
  case True
  then show ?thesis by (simp add: StringLengthN_def)
next
  case False
  from readable_chars [OF assms False] obtain cs where
    cs: "chars_at s p = Some cs" "nat n \<le> length cs" by blast
  from strnlen_fits [OF cs(2)] obtain k where "strnlen cs (nat n) = Some k" by blast
  then show ?thesis using cs by (simp add: StringLengthN_def)
qed

lemma readable_own:
  "readable s (Payload a off) n \<Longrightarrow> GetData s a = Some d \<Longrightarrow> 0 \<le> off \<and> off \<le> nDataLength d"
  by (simp add: readable_def)

lemma Append_pin:
  assumes st: "state_ok (s, h)"
    and r: "Append M s h p n = Return (s', h')" and pn: "pinned (s, h) a"
  shows "pinned (s', h') a"
proof -
  from st obtain d where d: "GetData s h = Some d" "buf_ok d" by (rule state_okD)
  from r obtain m s1 h1 off q k s2 where pw: "PrepareWrite M s h (to_int m) = Return (s1, h1)"
    and cp: "CopyChars s1 h1 off q k = Some s2"
    and sl: "SetLength s2 h1 (to_int m) = Return (s', h')"
    by (auto simp: Append_def Let_def GetBuffer_n_def ReleaseBufferSetLength_eq
        split: option.splits if_splits result.splits)
  have "to_int m \<le> INT_MAX" using to_int_le [of m] by (simp add: INT_MAX_def)
  from pin_SetLength [OF sl pin_CopyChars [OF cp pin_PrepareWrite [OF d this pw pn]]]
  show ?thesis .
qed

lemma Append_no_fault_if:
  assumes live: "GetData s h = Some d" and ok: "buf_ok d" and n: "n \<le> INT_MAX"
    and small: "nDataLength d < INT_MAX"
    and SL: "0 \<le> n \<Longrightarrow> \<exists>k. StringLengthN s p (nat n) = Some k"
    and safe: "\<And>off. p = Payload h off \<Longrightarrow> 0 \<le> off \<and> off \<le> nDataLength d"
  shows "no_fault (Append M s h p n)"
proof (cases "n < 0")
  case True
  then show ?thesis using Append_negative [OF live True] by simp
next
  case False
  then have n0: "0 \<le> n" by simp
  from SL [OF n0] obtain k where k: "StringLengthN s p (nat n) = Some k" by blast
  note U = Append_unfold [OF live ok n0 n k, of M]
  show ?thesis
  proof (cases "INT_MAX - k < nDataLength d")
    case True
    then show ?thesis using U by simp
  next
    case nover: False
    then have m: "nDataLength d + k \<le> INT_MAX" by simp
    have c: "nDataLength d < INT_MAX \<or> nRefs d \<le> 1 \<or> nDataLength d + k < 0"
      using small by simp
    show ?thesis
    proof (cases "PrepareWrite M s h (nDataLength d + k)")
      case (Throw e x)
      then show ?thesis
        using PrepareWrite_no_fault [OF live ok c, of M] U nover by simp
    next
      case (Return x)
      obtain s1 h1 where x: "x = (s1, h1)" by (cases x)
      from Append_commits [OF live ok n0 n k m safe Return [unfolded x]]
      show ?thesis by auto
    qed
  qed
qed

lemma Append_no_fault:
  assumes st: "state_ok (s, h)" and n: "n \<le> INT_MAX" and sh: "short s h"
    and rd: "readable s p n"
  shows "no_fault (Append M s h p n)"
proof -
  from st obtain d where d: "GetData s h = Some d" "buf_ok d" and hs: "heap_ok s"
    by (rule state_okD)
  have small: "nDataLength d < INT_MAX" using sh d by (simp add: short_def)
  show ?thesis
  proof (rule Append_no_fault_if [OF d n small])
    show "\<exists>k. StringLengthN s p (nat n) = Some k" by (rule readable_StringLengthN [OF hs rd])
    show "0 \<le> off \<and> off \<le> nDataLength d" if "p = Payload h off" for off
      using readable_own [OF rd [unfolded that] d(1)] .
  qed
qed

lemma SetString_pin:
  assumes st: "state_ok (s, h)" and n: "n \<le> INT_MAX"
    and r: "SetString M s h p n = Return (s', h')" and pn: "pinned (s, h) a"
  shows "pinned (s', h') a"
proof (cases "n = 0")
  case True
  then show ?thesis using Empty_pin [OF st _ pn] r by (simp add: Empty_SetString)
next
  case False
  from st obtain d where d: "GetData s h = Some d" "buf_ok d" by (rule state_okD)
  from r False d have p0: "p \<noteq> Null"
    by (auto simp: SetString_def split: if_splits)
  obtain s1 h1 where pw: "PrepareWrite M s h n = Return (s1, h1)"
    using r False d p0
    by (cases "PrepareWrite M s h n") (auto simp: SetString_def Let_def GetBuffer_n_def)
  note p1 = pin_PrepareWrite [OF d n pw pn]
  from state_ok_PrepareWrite [OF st n pw] obtain d1 where d1: "GetData s1 h1 = Some d1"
    by (rule state_okD)
  have "\<exists>s2. pinned (s2, h1) a \<and> SetLength s2 h1 n = Return (s', h')"
  proof (cases "own_offset p h (to_UINT (nDataLength d))")
    case None
    then obtain s2 where cp: "CopyChars s1 h1 0 p n = Some s2"
      and sl: "SetLength s2 h1 n = Return (s', h')"
      using r False d p0 pw d1
      by (cases "CopyChars s1 h1 0 p n")
        (auto simp: SetString_def Let_def GetBuffer_n_def ReleaseBufferSetLength_eq)
    then show ?thesis using pin_CopyChars [OF cp p1] by blast
  next
    case (Some k)
    then obtain s2 where
      cp: "CopyCharsOverlapped s1 h1 (nAllocLength d1) (Payload h1 k) n = Some s2"
      and sl: "SetLength s2 h1 n = Return (s', h')"
      using r False d p0 pw d1
      by (cases "CopyCharsOverlapped s1 h1 (nAllocLength d1) (Payload h1 k) n")
        (auto simp: SetString_def Let_def GetBuffer_n_def ReleaseBufferSetLength_eq)
    then show ?thesis using pin_CopyCharsOverlapped [OF cp p1] by blast
  qed
  then show ?thesis by (auto elim: pin_SetLength)
qed

lemma SetString_no_fault:
  assumes st: "state_ok (s, h)" and n: "n \<le> INT_MAX" and sh: "short s h"
    and rd: "readable s p n"
  shows "no_fault (SetString M s h p n)"
proof -
  from st obtain d where d: "GetData s h = Some d" "buf_ok d" and hs: "heap_ok s"
    by (rule state_okD)
  note D = buf_okD [OF d(2)]
  have c: "nDataLength d < INT_MAX \<or> nRefs d \<le> 1 \<or> n < 0" using sh d by (simp add: short_def)
  have u: "to_UINT (nDataLength d) = nDataLength d"
    using D by (intro to_UINT_id) (simp_all add: INT_MAX_def)
  consider (zero) "n = 0" | (null) "n \<noteq> 0" "p = Null" | (neg) "n < 0" "p \<noteq> Null"
    | (pos) "0 < n" "p \<noteq> Null" by linarith
  then show ?thesis
  proof cases
    case zero
    then show ?thesis using Empty_no_fault [OF st, of M] by (simp add: Empty_SetString)
  next
    case null
    then show ?thesis by (simp add: SetString_def)
  next
    case neg
    then show ?thesis
      using d by (simp add: SetString_def Let_def GetBuffer_n_def PrepareWrite_negative)
  next
    case pos
    show ?thesis
    proof (cases "PrepareWrite M s h n")
      case (Throw e x)
      then show ?thesis
        using PrepareWrite_no_fault [OF d c, of M] d pos
        by (simp add: SetString_def Let_def GetBuffer_n_def)
    next
      case (Return x)
      obtain s1 h1 where x: "x = (s1, h1)" by (cases x)
      note pw = Return [unfolded x]
      note a1 = state_ok_almost [OF state_ok_PrepareWrite [OF st n pw]]
      show ?thesis
      proof (rule PrepareWrite_Return [OF d n pw], goal_cases)
        case (1 d1)
        note d1 = 1(1) and cap = 1(3) and len1 = 1(5) and other = 1(7) and h1 = 1(9)
        note D1 = buf_okD [OF 1(2)]
        have fit: "nat n \<le> length (data d1)" using cap D1 pos by linarith
        let ?copy = "GetData s1 h1 \<bind> (\<lambda>d1.
            case own_offset p h (to_UINT (nDataLength d)) of
              Some k \<Rightarrow> CopyCharsOverlapped s1 h1 (nAllocLength d1) (Payload h1 k) n
            | None \<Rightarrow> CopyChars s1 h1 0 p n)"
        have "\<exists>s2. ?copy = Some s2 \<and> almost_ok s2 h1"
        proof (cases p)
          case Null
          then show ?thesis using pos by simp
        next
          case (Mem cs)
          then have "nat n \<le> length cs" using rd by (simp add: readable_def)
          then have "CopyChars s1 h1 0 p n \<noteq> None"
            using Mem pos d1 fit
            by (simp add: CopyChars_def overlaps_def read_chars_def chars_at_def)
          then obtain s2 where cp: "CopyChars s1 h1 0 p n = Some s2" by auto
          then show ?thesis
            using almost_ok_CopyChars [OF a1 cp] d1 Mem by (simp add: own_offset_def)
        next
          case (Payload a k)
          then obtain da where da: "GetData s a = Some da" "0 \<le> k" "k \<le> nDataLength da"
            "k + n \<le> nDataLength da + 1"
            using rd by (auto simp: readable_def split: option.splits)
          have al: "a < length s" using da(1) by (rule GetData_lt)
          show ?thesis
          proof (cases "a = h")
            case True
            then have dd: "da = d" using da d by simp
            have o: "own_offset p h (to_UINT (nDataLength d)) = Some k"
              using Payload True da dd u by (simp add: own_offset_def)
            have kd: "k \<le> nDataLength d1" "k + n \<le> nDataLength d1 + 1"
              using da dd len1 by simp_all
            have "nat k \<le> length (data d1)" "nat n \<le> length (data d1) - nat k"
              using kd da(2) D1 by linarith+
            then have "CopyCharsOverlapped s1 h1 (nAllocLength d1) (Payload h1 k) n \<noteq> None"
              using pos d1 fit cap da
              by (simp add: CopyCharsOverlapped_def read_chars_def chars_at_def)
            then obtain s2 where
              cp: "CopyCharsOverlapped s1 h1 (nAllocLength d1) (Payload h1 k) n = Some s2" by auto
            then show ?thesis
              using almost_ok_CopyCharsOverlapped [OF a1 cp] d1 o by simp
          next
            case False
            have o: "own_offset p h (to_UINT (nDataLength d)) = None"
              using Payload False by (simp add: own_offset_def)
            have "buf_ok da" using hs da(1) by (auto simp: heap_ok_iff)
            note Da = buf_okD [OF this]
            have a1': "GetData s1 a = Some da" using other [OF False al] da by simp
            have ne: "a \<noteq> h1" using h1 False al by auto
            have "nat k \<le> length (data da)" "nat n \<le> length (data da) - nat k"
              using da Da by linarith+
            then have "CopyChars s1 h1 0 p n \<noteq> None"
              using Payload pos d1 fit a1' ne da
              by (simp add: CopyChars_def overlaps_def read_chars_def chars_at_def)
            then obtain s2 where cp: "CopyChars s1 h1 0 p n = Some s2" by auto
            then show ?thesis
              using almost_ok_CopyChars [OF a1 cp] d1 o by simp
          qed
        qed
        then obtain s2 where s2: "?copy = Some s2" "almost_ok s2 h1" by blast
        show ?case
          using d pos pw s2(1) SetLength_no_fault [OF s2(2), of n]
          by (simp add: SetString_def Let_def GetBuffer_n_def ReleaseBufferSetLength_eq)
      qed
    qed
  qed
qed

lemma to_int_le_self: "0 \<le> x \<Longrightarrow> to_int x \<le> x"
proof -
  assume "0 \<le> x"
  have "(x + 2147483648) mod 4294967296 \<le> x + 2147483648"
    using \<open>0 \<le> x\<close> by (intro zmod_le_nonneg_dividend) simp
  then show ?thesis by (simp add: to_int_def)
qed

lemma strlen_Some:
  assumes "NUL \<in> set cs"
  shows "\<exists>k. strlen cs = Some k \<and> k < length cs \<and> cs ! k = NUL \<and> strnlen cs k = Some k"
proof -
  let ?k = "length (takeWhile (\<lambda>c. c \<noteq> NUL) cs)"
  from assms obtain i where i: "i < length cs" "cs ! i = NUL"
    by (auto simp: in_set_conv_nth)
  have k: "?k < length cs" using strnlen_NUL(2) [OF i] i(1) by simp
  then have "\<not> cs ! ?k \<noteq> NUL" by (rule nth_length_takeWhile)
  then show ?thesis using k by (simp add: strlen_def strnlen_def Let_def)
qed

lemma terminated_StringLength:
  assumes hs: "heap_ok s" and t: "terminated s p"
  shows "\<exists>n. StringLength s p = Some n \<and> n \<le> INT_MAX \<and> readable s p n \<and>
             (0 \<le> n \<longrightarrow> (\<exists>k. StringLengthN s p (nat n) = Some k))"
proof (cases p)
  case Null
  then show ?thesis by (simp add: StringLength_def readable_def StringLengthN_def INT_MAX_def)
next
  case (Mem cs)
  then have "NUL \<in> set cs" using t by (simp add: terminated_def)
  from strlen_Some [OF this] obtain k where k: "strlen cs = Some k" "k < length cs"
    "strnlen cs k = Some k" by blast
  let ?n = "to_int (int k)"
  have le: "?n \<le> int k" by (rule to_int_le_self) simp
  have sl: "StringLength s p = Some ?n" using Mem k by (simp add: StringLength_def chars_at_def)
  have "nat ?n \<le> length cs" using le k(2) by linarith
  from strnlen_fits [OF this] obtain j where "strnlen cs (nat ?n) = Some j" by blast
  then have "\<exists>j. StringLengthN s p (nat ?n) = Some j"
    using Mem by (simp add: StringLengthN_def chars_at_def)
  moreover have "readable s p ?n" using Mem le k(2) by (simp add: readable_def)
  ultimately show ?thesis using sl StringLength_le [OF sl] by simp
next
  case (Payload a off)
  then obtain da where da: "GetData s a = Some da" "0 \<le> off" "off \<le> nDataLength da"
    using t by (auto simp: terminated_def split: option.splits)
  have "buf_ok da" using hs da(1) by (auto simp: heap_ok_iff)
  note D = buf_okD [OF this]
  let ?cs = "drop (nat off) (data da)"
  let ?i = "nat (nDataLength da) - nat off"
  have o: "nat off \<le> nat (nDataLength da)" "nat off \<le> length (data da)"
    using da D by linarith+
  have cs: "chars_at s p = Some ?cs" using Payload da o by (simp add: chars_at_def)
  have "?i < length ?cs" using o D by (simp, arith)
  moreover have "?cs ! ?i = NUL" using o D by simp
  ultimately have i: "?i < length ?cs" "?cs ! ?i = NUL" by blast+
  then have "NUL \<in> set ?cs" by (metis nth_mem)
  from strlen_Some [OF this] obtain k where k: "strlen ?cs = Some k" "k < length ?cs" by blast
  have "k = length (takeWhile (\<lambda>c. c \<noteq> NUL) ?cs)"
    using k(1) by (auto simp: strlen_def Let_def split: if_splits)
  then have ki: "k \<le> ?i" using strnlen_NUL(2) [OF i] by simp
  have "nAllocLength da \<le> 2147483647" using D by (simp add: INT_MAX_def)
  then have "int k \<le> 2147483647" using ki D(1,2) by linarith
  then have ti: "to_int (int k) = int k" by (intro to_int_id) simp_all
  have sl: "StringLength s p = Some (int k)"
    using Payload cs k ti by (simp add: StringLength_def)
  have "off + int k \<le> nDataLength da + 1" using ki o da(2,3) by linarith
  then have rd: "readable s p (int k)"
    using Payload da by (simp add: readable_def)
  show ?thesis
    using sl StringLength_le [OF sl] rd readable_StringLengthN [OF hs rd] by simp
qed

lemma SetString_sz_pin:
  assumes "state_ok (s, h)" "SetString_sz M s h p = Return (s', h')" "pinned (s, h) a"
  shows "pinned (s', h') a"
proof -
  from assms(2) obtain n where n: "StringLength s p = Some n"
    and r: "SetString M s h p n = Return (s', h')"
    by (auto simp: SetString_sz_def split: option.splits)
  from SetString_pin [OF assms(1) StringLength_le [OF n] r assms(3)] show ?thesis .
qed

lemma SetString_sz_no_fault:
  assumes st: "state_ok (s, h)" and sh: "short s h" and t: "terminated s p"
  shows "no_fault (SetString_sz M s h p)"
proof -
  have hs: "heap_ok s" using st by (simp add: state_ok_def)
  from terminated_StringLength [OF hs t] obtain n where
    n: "StringLength s p = Some n" "n \<le> INT_MAX" "readable s p n" by blast
  from SetString_no_fault [OF st n(2) sh n(3), of M] show ?thesis
    using n(1) by (simp add: SetString_sz_def)
qed

lemma Append_sz_pin:
  assumes "state_ok (s, h)" "Append_sz M s h p = Return (s', h')" "pinned (s, h) a"
  shows "pinned (s', h') a"
proof -
  from assms(2) obtain n where r: "Append M s h p n = Return (s', h')"
    by (auto simp: Append_sz_def split: option.splits)
  from Append_pin [OF assms(1) r assms(3)] show ?thesis .
qed

lemma Append_sz_no_fault:
  assumes st: "state_ok (s, h)" and sh: "short s h" and t: "terminated s p"
  shows "no_fault (Append_sz M s h p)"
proof -
  have hs: "heap_ok s" using st by (simp add: state_ok_def)
  from terminated_StringLength [OF hs t] obtain n where
    n: "StringLength s p = Some n" "n \<le> INT_MAX" "readable s p n" by blast
  from Append_no_fault [OF st n(2) sh n(3), of M] show ?thesis
    using n(1) by (simp add: Append_sz_def)
qed

lemma Append_str_pin:
  assumes "state_ok (s, h)" "Append_str M s h src = Return (s', h')" "pinned (s, h) a"
  shows "pinned (s', h') a"
proof -
  from assms(2) obtain n where r: "Append M s h (Payload src 0) n = Return (s', h')"
    by (auto simp: Append_str_def split: option.splits)
  from Append_pin [OF assms(1) r assms(3)] show ?thesis .
qed

lemma Append_str_no_fault:
  assumes st: "state_ok (s, h)" and sh: "short s h" and src: "GetData s src \<noteq> None"
  shows "no_fault (Append_str M s h src)"
proof -
  have hs: "heap_ok s" using st by (simp add: state_ok_def)
  from src obtain ds where ds: "GetData s src = Some ds" by auto
  have "buf_ok ds" using hs ds by (auto simp: heap_ok_iff)
  note D = buf_okD [OF this]
  have rd: "readable s (Payload src 0) (nDataLength ds)"
    using ds D by (simp add: readable_def)
  have n: "nDataLength ds \<le> INT_MAX" using D by simp
  from Append_no_fault [OF st n sh rd, of M] show ?thesis
    using ds by (simp add: Append_str_def)
qed

lemma CloneData_no_fault:
  assumes hs: "heap_ok s" and sh: "short s p"
  shows "no_fault (CloneData M s p)"
proof -
  from sh obtain d where d: "GetData s p = Some d" and small: "nDataLength d < INT_MAX"
    by (auto simp: short_def split: option.splits)
  have ok: "buf_ok d" using hs d by (auto simp: heap_ok_iff)
  note D = buf_okD [OF ok]
  have pl: "p < length s" using d by (rule GetData_lt)
  let ?n = "nDataLength d"
  show ?thesis
  proof (cases "\<not> IsLocked d \<and> Clone M (pStringMgr d) = pStringMgr d")
    case True
    then show ?thesis using d by (simp add: CloneData_def Let_def)
  next
    case False
    show ?thesis
    proof (cases "Admits M (Clone M (pStringMgr d)) ?n")
      case no: False
      then show ?thesis using d False by (auto simp: CloneData_def Let_def mgrAllocate_def)
    next
      case True
      let ?new = "\<lparr>pStringMgr = Clone M (pStringMgr d), nDataLength = 0, nAllocLength = ?n,
          nRefs = 1, data = fresh_chars M 0 (nat ?n + 1)\<rparr>"
      have al: "mgrAllocate M (Clone M (pStringMgr d)) ?n s = (Some (length s), s @ [Some ?new])"
        using True D by (simp add: mgrAllocate_def)
      have pk: "poke (s @ [Some ?new]) (length s) (\<lambda>n. n\<lparr>nDataLength := ?n\<rparr>) =
          Some (s @ [Some (?new\<lparr>nDataLength := ?n\<rparr>)])"
        by (simp add: poke_def GetData_snoc)
      have ti: "to_int (?n + 1) = ?n + 1"
        using small D by (intro to_int_id) (simp_all add: INT_MAX_def)
      have cp: "CopyChars (s @ [Some (?new\<lparr>nDataLength := ?n\<rparr>)]) (length s) 0 (Payload p 0) (?n + 1) =
          Some ((s @ [Some (?new\<lparr>nDataLength := ?n\<rparr>)])[length s :=
            Some ((?new\<lparr>nDataLength := ?n\<rparr>)\<lparr>data := write_chars (data (?new\<lparr>nDataLength := ?n\<rparr>)) (nat 0)
              (take (nat (?n + 1)) (drop (nat 0) (data d)))\<rparr>)])"
        using d pl D
        by (intro CopyChars_other) (simp_all add: GetData_snoc length_fresh_chars nat_add_distrib)
      show ?thesis
        using d False al pk cp ti by (simp add: CloneData_def Let_def)
    qed
  qed
qed

lemma CloneData_pin:
  assumes hs: "heap_ok s" and r: "CloneData M s src = Return (s1, h')"
    and p: "pinned (s, g) a" and g: "g \<noteq> src"
  shows "pinned (s1, g) a" "pinned (s1, h') a"
proof -
  note C = CloneData_ok [OF hs r]
  have al: "a < length s" using p by (rule pin_lt)
  from C(5) obtain d where d: "GetData s src = Some d"
    "GetData s1 src = Some (if h' = src then AddRef d else d)" by blast
  have sl: "src < length s" using d(1) by (rule GetData_lt)
  show "pinned (s1, g) a"
  proof (cases "a = src")
    case True
    then show ?thesis using p d g by (auto simp: pin_iff AddRef_def)
  next
    case False
    then show ?thesis using p C(3) [OF False al] by (auto simp: pin_iff)
  qed
  show "pinned (s1, h') a"
  proof (cases "a = src")
    case True
    then show ?thesis using p d g C(2) sl by (auto simp: pin_iff AddRef_def)
  next
    case False
    then have "a \<noteq> h'" using C(2) al by auto
    then show ?thesis
      using p C(3) [OF False al] False by (auto simp: pin_iff split: if_splits)
  qed
qed

lemma assign_pin:
  assumes st: "state_ok (s, h)"
    and r: "assign M s h src = Return (s', h')" and p: "pinned (s, h) a"
  shows "pinned (s', h') a"
proof -
  from st obtain dt where dt: "GetData s h = Some dt" "buf_ok dt" and hs: "heap_ok s"
    by (rule state_okD)
  from r obtain ds where ds: "GetData s src = Some ds"
    by (auto simp: assign_def split: option.splits)
  have "buf_ok ds" using hs ds by (auto simp: heap_ok_iff)
  note Ds = buf_okD [OF this]
  consider (same) "src = h" | (copy) "src \<noteq> h" "IsLocked dt \<or> pStringMgr ds \<noteq> pStringMgr dt"
    | (clone) "src \<noteq> h" "\<not> (IsLocked dt \<or> pStringMgr ds \<noteq> pStringMgr dt)" by blast
  then show ?thesis
  proof cases
    case same
    then show ?thesis using r ds dt p by (simp add: assign_def)
  next
    case copy
    then have "SetString M s h (Payload src 0) (nDataLength ds) = Return (s', h')"
      using r ds dt by (simp add: assign_def)
    from SetString_pin [OF st _ this p] Ds show ?thesis by simp
  next
    case clone
    then obtain s1 where cd: "CloneData M s src = Return (s1, h')"
      and rl: "Release s1 h = Some s'"
      using r ds dt
      by (auto simp: assign_def split: result.splits option.splits prod.splits)
    note C = CloneData_ok [OF hs cd]
    note P = CloneData_pin [OF hs cd p clone(1) [symmetric]]
    have hl: "h < length s" using dt(1) by (rule GetData_lt)
    have ne: "h' \<noteq> h" using C(2) clone(1) hl by auto
    show ?thesis
    proof (cases "a = h'")
      case False
      from pin_Release [OF rl P(1) False] show ?thesis .
    next
      case True
      have "GetData s' h' = GetData s1 h'" using Release_other [OF rl ne] .
      then show ?thesis using P(2) True by (simp add: pin_iff)
    qed
  qed
qed

lemma assign_no_fault:
  assumes st: "state_ok (s, h)" and sh: "short s h" and ss: "short s src"
  shows "no_fault (assign M s h src)"
proof -
  from st obtain dt where dt: "GetData s h = Some dt" "buf_ok dt" and hs: "heap_ok s"
    by (rule state_okD)
  from ss obtain ds where ds: "GetData s src = Some ds"
    by (auto simp: short_def split: option.splits)
  have "buf_ok ds" using hs ds by (auto simp: heap_ok_iff)
  note Ds = buf_okD [OF this]
  have hl: "h < length s" using dt(1) by (rule GetData_lt)
  consider (same) "src = h" | (copy) "src \<noteq> h" "IsLocked dt \<or> pStringMgr ds \<noteq> pStringMgr dt"
    | (clone) "src \<noteq> h" "\<not> (IsLocked dt \<or> pStringMgr ds \<noteq> pStringMgr dt)" by blast
  then show ?thesis
  proof cases
    case same
    then show ?thesis using ds dt by (simp add: assign_def)
  next
    case copy
    have rd: "readable s (Payload src 0) (nDataLength ds)"
      using ds Ds by (simp add: readable_def)
    have n: "nDataLength ds \<le> INT_MAX" using Ds by simp
    from SetString_no_fault [OF st n sh rd, of M] show ?thesis
      using copy ds dt by (simp add: assign_def)
  next
    case clone
    show ?thesis
    proof (cases "CloneData M s src")
      case (Throw e x)
      then show ?thesis
        using CloneData_no_fault [OF hs ss, of M] clone ds dt by (simp add: assign_def)
    next
      case (Return x)
      obtain s1 h' where x: "x = (s1, h')" by (cases x)
      note C = CloneData_ok [OF hs Return [unfolded x]]
      have "GetData s1 h = Some dt" using C(3) [OF clone(1) [symmetric] hl] dt by simp
      from Release_live [OF this] show ?thesis
        using clone ds dt Return x by (auto simp: assign_def)
    qed
  qed
qed

lemma nil_live: "nil_ok M s \<Longrightarrow> GetData s (NilString M m) \<noteq> None"
  by (auto simp: nil_ok_pin pin_iff)

lemma CSimpleStringT_handle_ok:
  assumes hs: "heap_ok s" and nil: "nil_ok M s"
  shows "handle_ok M (CSimpleStringT M s m)"
proof (cases "mgrGetNilString M m s")
  case (Pair p s')
  have st: "state_ok (s', p)"
    using CSimpleStringT_ok [OF hs nil_live [OF nil], of m] Pair by (simp add: CSimpleStringT_def)
  then have "p < length s'" by (auto simp: state_ok_iff dest: GetData_lt)
  moreover have "length s' = length s"
    using Pair by (auto simp: mgrGetNilString_def Let_def split: option.splits)
  ultimately have ne: "p \<noteq> length s" by simp
  have "pinned (s', p) (NilString M m')" for m'
    using pin_mgrGetNilString [OF Pair _ ne] nil by (simp add: nil_ok_pin)
  then show ?thesis using st Pair by (simp add: handle_ok_def CSimpleStringT_def)
qed

lemma CSimpleStringT_n_pin:
  assumes r: "CSimpleStringT_n M s p n m = Return (s', h')" and pn: "pinned (s, length s) a"
  shows "pinned (s', h') a"
proof -
  from r obtain q s1 s2 where al: "mgrAllocate M m n s = (Some q, s1)"
    and sl: "SetLength s1 q n = Return (s2, h')" and cp: "CopyChars s2 h' 0 p n = Some s'"
    by (auto simp: CSimpleStringT_n_def split: if_splits option.splits result.splits prod.splits)
  have q: "q = length s" using al by (auto simp: mgrAllocate_def split: if_splits)
  from pin_CopyChars [OF cp pin_SetLength [OF sl pin_mgrAllocate [OF al pn, folded q]]]
  show ?thesis .
qed

lemma CSimpleStringT_n_no_fault:
  assumes hs: "heap_ok s" and n: "n \<le> INT_MAX" and rd: "readable s p n"
  shows "no_fault (CSimpleStringT_n M s p n m)"
proof (cases "(p = Null \<and> n \<noteq> 0) \<or> \<not> (0 \<le> n \<and> Admits M m n)")
  case True
  then show ?thesis by (auto simp: CSimpleStringT_n_def mgrAllocate_def)
next
  case False
  then have n0: "0 \<le> n" and adm: "Admits M m n" and pn: "p = Null \<longrightarrow> n = 0" by auto
  let ?new = "\<lparr>pStringMgr = m, nDataLength = 0, nAllocLength = n, nRefs = 1,
      data = fresh_chars M 0 (nat n + 1)\<rparr>"
  let ?d2 = "?new\<lparr>nDataLength := n, data := (data ?new)[nat n := NUL]\<rparr>"
  let ?s2 = "(s @ [Some ?new])[length s := Some ?d2]"
  have al: "mgrAllocate M m n s = (Some (length s), s @ [Some ?new])"
    using n0 adm by (simp add: mgrAllocate_def)
  have sl: "SetLength (s @ [Some ?new]) (length s) n = Return (?s2, length s)"
    using n0 by (intro SetLength_ok) (simp_all add: GetData_snoc length_fresh_chars)
  have g2: "GetData ?s2 (length s) = Some ?d2" by (simp add: GetData_upd GetData_snoc)
  have l2: "nat n \<le> length (data ?d2)" by (simp add: length_fresh_chars)
  have "CopyChars ?s2 (length s) 0 p n \<noteq> None"
  proof (cases "n = 0")
    case True
    then show ?thesis
      using g2 by (simp add: CopyChars_def overlaps_def read_chars_def split: ptr.splits)
  next
    case False
    then have pos: "0 < n" and p0: "p \<noteq> Null" using n0 pn by auto
    from readable_chars [OF hs rd p0] obtain cs where
      cs: "chars_at s p = Some cs" "nat n \<le> length cs" by blast
    have c2: "chars_at ?s2 p = Some cs"
    proof (cases p)
      case (Payload a k)
      from chars_at_PayloadD [OF cs(1) [unfolded Payload]] obtain da where
        da: "GetData s a = Some da" "0 \<le> k" "nat k \<le> length (data da)"
        "cs = drop (nat k) (data da)" by blast
      have "a < length s" using da(1) by (rule GetData_lt)
      then have "GetData ?s2 a = Some da" using da(1) by (simp add: GetData_upd GetData_snoc)
      then show ?thesis using Payload da by (simp add: chars_at_def)
    qed (use cs in \<open>simp_all add: chars_at_def\<close>)
    have "\<not> overlaps (length s) 0 p (nat n)"
    proof (cases p)
      case (Payload a k)
      from chars_at_PayloadD [OF cs(1) [unfolded Payload]] obtain da where
        "GetData s a = Some da" by blast
      then have "a < length s" by (rule GetData_lt)
      then show ?thesis using Payload by (simp add: overlaps_def)
    qed (simp_all add: overlaps_def)
    then show ?thesis
      using pos c2 cs(2) g2 l2 by (simp add: CopyChars_def read_chars_def)
  qed
  then obtain s3 where "CopyChars ?s2 (length s) 0 p n = Some s3" by auto
  then show ?thesis
    using False al sl by (simp add: CSimpleStringT_n_def)
qed

lemma CSimpleStringT_sz_n:
  "StringLength s p = Some n \<Longrightarrow> CSimpleStringT_sz M s p m = CSimpleStringT_n M s p n m"
  by (auto simp: CSimpleStringT_sz_def CSimpleStringT_n_def StringLength_def)

lemma CSimpleStringT_sz_pin:
  assumes r: "CSimpleStringT_sz M s p m = Return (s', h')" and pn: "pinned (s, length s) a"
  shows "pinned (s', h') a"
proof -
  from r obtain n where n: "StringLength s p = Some n"
    by (auto simp: CSimpleStringT_sz_def split: option.splits)
  from CSimpleStringT_n_pin [OF r [unfolded CSimpleStringT_sz_n [OF n]] pn] show ?thesis .
qed

lemma CSimpleStringT_sz_no_fault:
  assumes hs: "heap_ok s" and t: "terminated s p"
  shows "no_fault (CSimpleStringT_sz M s p m)"
proof -
  from terminated_StringLength [OF hs t] obtain n where
    n: "StringLength s p = Some n" "n \<le> INT_MAX" "readable s p n" by blast
  from CSimpleStringT_n_no_fault [OF hs n(2,3), of M m] show ?thesis
    by (simp add: CSimpleStringT_sz_n [OF n(1)])
qed

lemma CSimpleStringT_copy_pin:
  assumes hs: "heap_ok s" and r: "CSimpleStringT_copy M s src = Return (s', h')"
    and pn: "pinned (s, length s) a"
  shows "pinned (s', h') a"
proof -
  have cd: "CloneData M s src = Return (s', h')" using r by (simp add: CSimpleStringT_copy_def)
  then obtain d where "GetData s src = Some d"
    by (auto simp: CloneData_def split: option.splits)
  then have "length s \<noteq> src" by (auto dest: GetData_lt)
  from CloneData_pin(2) [OF hs cd pn this] show ?thesis .
qed

section \<open>A throw leaves the state\<close>

text \<open>
  A call that throws \<^verbatim>\<open>OutOfMemory\<close> or \<^verbatim>\<open>InvalidArgument\<close> throws from the state it
  was called in.
\<close>

lemma PrepareWrite_throw:
  assumes "PrepareWrite M s h n = Throw e x" "e \<noteq> Fault"
  shows "x = (s, h)"
  using assms
  by (auto simp: PrepareWrite_def PrepareWrite2_def Fork_def Reallocate_def mgrAllocate_def
      mgrReallocate_def Let_def split: if_splits option.splits prod.splits)

lemma SetLength_throw: "SetLength s h n = Throw e x \<Longrightarrow> x = (s, h)"
  by (auto simp: SetLength_def split: option.splits if_splits)

lemma SetLength_returns:
  assumes "GetData s h = Some d" "0 \<le> n" "n \<le> nAllocLength d"
    "length (data d) = nat (nAllocLength d) + 1"
  shows "\<exists>s'. SetLength s h n = Return (s', h)"
  using SetLength_ok [OF assms] by simp

lemma CopyChars_keeps:
  assumes "CopyChars s b off p n = Some s2" "GetData s b = Some d"
  shows "\<exists>d2. GetData s2 b = Some d2 \<and> nAllocLength d2 = nAllocLength d \<and>
              length (data d2) = length (data d)"
proof (rule CopyChars_SomeD [OF assms(1)], goal_cases)
  case (1 cs dd)
  have "b < length s" using assms(2) by (rule GetData_lt)
  then show ?case using 1 assms(2) by (simp add: GetData_upd write_chars_length)
qed

lemma CopyCharsOverlapped_keeps:
  assumes "CopyCharsOverlapped s b m p n = Some s2" "GetData s b = Some d"
  shows "\<exists>d2. GetData s2 b = Some d2 \<and> nAllocLength d2 = nAllocLength d \<and>
              length (data d2) = length (data d)"
proof (rule CopyCharsOverlapped_SomeD [OF assms(1)], goal_cases)
  case (1 cs dd)
  have "b < length s" using assms(2) by (rule GetData_lt)
  then show ?case using 1 assms(2) by (simp add: GetData_upd write_chars_length)
qed

lemma store_char_keeps:
  assumes "store_char s b i c = Some s2" "GetData s b = Some d"
  shows "\<exists>d2. GetData s2 b = Some d2 \<and> nAllocLength d2 = nAllocLength d \<and>
              length (data d2) = length (data d)"
  using assms GetData_lt [OF assms(2)]
  by (auto simp: store_char_def GetData_upd split: if_splits)

lemma commit_returns:
  assumes "GetData s1 h1 = Some d1" "buf_ok d1" "0 \<le> n" "n \<le> nAllocLength d1"
    and "\<exists>d2. GetData s2 h1 = Some d2 \<and> nAllocLength d2 = nAllocLength d1 \<and>
              length (data d2) = length (data d1)"
  shows "\<exists>s'. SetLength s2 h1 n = Return (s', h1)"
proof -
  from assms(5) obtain d2 where d2: "GetData s2 h1 = Some d2"
    "nAllocLength d2 = nAllocLength d1" "length (data d2) = length (data d1)" by blast
  show ?thesis
    using buf_okD(5) [OF assms(2)] assms(3,4) d2(2,3)
    by (intro SetLength_returns [OF d2(1)]) simp_all
qed

lemma Truncate_throw:
  assumes st: "state_ok (s, h)" and n: "n \<le> INT_MAX"
    and r: "Truncate M s h n = Throw e x" and ne: "e \<noteq> Fault"
  shows "x = (s, h)"
proof (cases "PrepareWrite M s h n")
  case (Throw e' x')
  then show ?thesis
    using r ne PrepareWrite_throw [OF Throw] by (simp add: Truncate_def GetBuffer_n_def)
next
  case (Return y)
  obtain s1 h1 where y: "y = (s1, h1)" by (cases y)
  from st obtain d where d: "GetData s h = Some d" "buf_ok d" by (rule state_okD)
  have sl: "SetLength s1 h1 n = Throw e x"
    using r Return y by (simp add: Truncate_def GetBuffer_n_def ReleaseBufferSetLength_eq)
  show ?thesis
  proof (rule PrepareWrite_Return [OF d n Return [unfolded y]], goal_cases)
    case (1 d1)
    from commit_returns [OF 1(1,2,11,3), of s1] 1(1) sl show ?case by auto
  qed
qed

lemma SetAt_throw:
  assumes st: "state_ok (s, h)"
    and r: "SetAt M s h i c = Throw e x" and ne: "e \<noteq> Fault"
  shows "x = (s, h)"
proof (rule ccontr)
  assume c: "x \<noteq> (s, h)"
  from st obtain d where d: "GetData s h = Some d" "buf_ok d" by (rule state_okD)
  note D = buf_okD [OF d(2)]
  note G = GetBuffer_PrepareWrite [OF d, of M]
  from r ne c d obtain s1 h1 s2 where pw: "PrepareWrite M s h (nDataLength d) = Return (s1, h1)"
    and sc: "store_char s1 h1 i c = Some s2"
    and sl: "SetLength s2 h1 (nDataLength d) = Throw e x"
    by (auto simp: SetAt_def Let_def G ReleaseBufferSetLength_eq
        split: option.splits if_splits result.splits dest: PrepareWrite_throw)
  have n: "nDataLength d \<le> INT_MAX" using D by simp
  show False
  proof (rule PrepareWrite_Return [OF d n pw], goal_cases)
    case (1 d1)
    from commit_returns [OF 1(1,2,11,3) store_char_keeps [OF sc 1(1)]] sl show ?case by auto
  qed
qed

lemma AppendChar_throw:
  assumes st: "state_ok (s, h)"
    and r: "AppendChar M s h c = Throw e x" and ne: "e \<noteq> Fault"
  shows "x = (s, h)"
proof (rule ccontr)
  assume c: "x \<noteq> (s, h)"
  from st obtain d where d: "GetData s h = Some d" "buf_ok d" by (rule state_okD)
  from r ne c d obtain m s1 h1 i s2 where pw: "PrepareWrite M s h (to_int m) = Return (s1, h1)"
    and sc: "store_char s1 h1 i c = Some s2"
    and sl: "SetLength s2 h1 (to_int m) = Throw e x"
    by (auto simp: AppendChar_def Let_def GetBuffer_n_def ReleaseBufferSetLength_eq
        split: option.splits if_splits result.splits dest: PrepareWrite_throw)
  have n: "to_int m \<le> INT_MAX" using to_int_le [of m] by (simp add: INT_MAX_def)
  show False
  proof (rule PrepareWrite_Return [OF d n pw], goal_cases)
    case (1 d1)
    from commit_returns [OF 1(1,2,11,3) store_char_keeps [OF sc 1(1)]] sl show ?case by auto
  qed
qed

lemma Append_throw:
  assumes st: "state_ok (s, h)"
    and r: "Append M s h p n = Throw e x" and ne: "e \<noteq> Fault"
  shows "x = (s, h)"
proof (rule ccontr)
  assume c: "x \<noteq> (s, h)"
  from st obtain d where d: "GetData s h = Some d" "buf_ok d" by (rule state_okD)
  from r ne c d obtain m s1 h1 off q k s2 where
    pw: "PrepareWrite M s h (to_int m) = Return (s1, h1)"
    and cp: "CopyChars s1 h1 off q k = Some s2"
    and sl: "SetLength s2 h1 (to_int m) = Throw e x"
    by (auto simp: Append_def Let_def GetBuffer_n_def ReleaseBufferSetLength_eq
        split: option.splits if_splits result.splits dest: PrepareWrite_throw)
  have n: "to_int m \<le> INT_MAX" using to_int_le [of m] by (simp add: INT_MAX_def)
  show False
  proof (rule PrepareWrite_Return [OF d n pw], goal_cases)
    case (1 d1)
    from commit_returns [OF 1(1,2,11,3) CopyChars_keeps [OF cp 1(1)]] sl show ?case by auto
  qed
qed

lemma Append_sz_throw:
  assumes "state_ok (s, h)" "Append_sz M s h p = Throw e x" "e \<noteq> Fault"
  shows "x = (s, h)"
  using assms
  by (auto simp: Append_sz_def split: option.splits dest: Append_throw)

lemma Append_str_throw:
  assumes "state_ok (s, h)" "Append_str M s h src = Throw e x" "e \<noteq> Fault"
  shows "x = (s, h)"
  using assms
  by (auto simp: Append_str_def split: option.splits dest: Append_throw)

lemma Empty_throw:
  assumes "Empty M s h = Throw e x" "e \<noteq> Fault"
  shows "x = (s, h)"
  using assms
  by (auto simp: Empty_def split: option.splits if_splits prod.splits dest: SetLength_throw)

lemma SetString_throw:
  assumes st: "state_ok (s, h)" and n: "n \<le> INT_MAX"
    and r: "SetString M s h p n = Throw e x" and ne: "e \<noteq> Fault"
  shows "x = (s, h)"
proof (cases "n = 0")
  case True
  then show ?thesis using Empty_throw [OF _ ne] r by (simp add: Empty_SetString)
next
  case False
  show ?thesis
  proof (rule ccontr)
    assume c: "x \<noteq> (s, h)"
    from st obtain d where d: "GetData s h = Some d" "buf_ok d" by (rule state_okD)
    from r ne c d False have p0: "p \<noteq> Null"
      by (auto simp: SetString_def split: if_splits)
    obtain s1 h1 where pw: "PrepareWrite M s h n = Return (s1, h1)"
      using r ne c False d p0
      by (cases "PrepareWrite M s h n")
        (auto simp: SetString_def Let_def GetBuffer_n_def dest: PrepareWrite_throw)
    show False
    proof (rule PrepareWrite_Return [OF d n pw], goal_cases)
      case (1 d1)
      note d1 = 1(1)
      have "\<exists>s2. (\<exists>d2. GetData s2 h1 = Some d2 \<and> nAllocLength d2 = nAllocLength d1 \<and>
                length (data d2) = length (data d1)) \<and> SetLength s2 h1 n = Throw e x"
      proof (cases "own_offset p h (to_UINT (nDataLength d))")
        case None
        then obtain s2 where cp: "CopyChars s1 h1 0 p n = Some s2"
          and sl: "SetLength s2 h1 n = Throw e x"
          using r ne False d p0 pw d1
          by (cases "CopyChars s1 h1 0 p n")
            (auto simp: SetString_def Let_def GetBuffer_n_def ReleaseBufferSetLength_eq)
        then show ?thesis using CopyChars_keeps [OF cp d1] by blast
      next
        case (Some k)
        then obtain s2 where
          cp: "CopyCharsOverlapped s1 h1 (nAllocLength d1) (Payload h1 k) n = Some s2"
          and sl: "SetLength s2 h1 n = Throw e x"
          using r ne False d p0 pw d1
          by (cases "CopyCharsOverlapped s1 h1 (nAllocLength d1) (Payload h1 k) n")
            (auto simp: SetString_def Let_def GetBuffer_n_def ReleaseBufferSetLength_eq)
        then show ?thesis using CopyCharsOverlapped_keeps [OF cp d1] by blast
      qed
      then obtain s2 where s2: "\<exists>d2. GetData s2 h1 = Some d2 \<and>
          nAllocLength d2 = nAllocLength d1 \<and> length (data d2) = length (data d1)"
        and sl: "SetLength s2 h1 n = Throw e x" by blast
      from commit_returns [OF 1(1,2,11,3) s2] sl show ?case by auto
    qed
  qed
qed

lemma SetString_sz_throw:
  assumes "state_ok (s, h)" "SetString_sz M s h p = Throw e x" "e \<noteq> Fault"
  shows "x = (s, h)"
proof -
  from assms(2,3) obtain n where n: "StringLength s p = Some n"
    and r: "SetString M s h p n = Throw e x"
    by (auto simp: SetString_sz_def split: option.splits)
  from SetString_throw [OF assms(1) StringLength_le [OF n] r assms(3)] show ?thesis .
qed

lemma FreeExtra_throw:
  assumes st: "state_ok (s, h)"
    and r: "FreeExtra M s h = Throw e x" and ne: "e \<noteq> Fault"
  shows "x = (s, h)"
proof -
  from st obtain d where d: "GetData s h = Some d" "buf_ok d" by (rule state_okD)
  note D = buf_okD [OF d(2)]
  have hl: "h < length s" using d(1) by (rule GetData_lt)
  let ?n = "nDataLength d"
  have go: "nAllocLength d \<noteq> ?n" "\<not> IsLocked d"
    using r d by (auto simp: FreeExtra_def Let_def split: if_splits)
  show ?thesis
  proof (cases "mgrAllocate M (pStringMgr d) ?n s")
    case (Pair po s1)
    show ?thesis
    proof (cases po)
      case None
      then have "s1 = s" using Pair by (auto simp: mgrAllocate_def split: if_splits)
      then show ?thesis
        using r d go Pair None by (auto simp: FreeExtra_def Let_def dest: SetLength_throw)
    next
      case (Some q)
      let ?new = "\<lparr>pStringMgr = pStringMgr d, nDataLength = 0, nAllocLength = ?n, nRefs = 1,
          data = fresh_chars M 0 (nat ?n + 1)\<rparr>"
      have q: "q = length s" "s1 = s @ [Some ?new]"
        using Pair Some by (auto simp: mgrAllocate_def split: if_splits)
      have g1: "GetData s1 q = Some ?new" using q by (simp add: GetData_snoc)
      from r ne d go Pair Some obtain s2 s3 where
        cp: "CopyChars s1 q 0 (Payload h 0) ?n = Some s2" and
        rl: "Release s2 h = Some s3" and
        sl: "SetLength s3 q ?n = Throw e x"
        by (auto simp: FreeExtra_def Let_def bind_eq_Some_conv split: option.splits)
      from CopyChars_keeps [OF cp g1] obtain d2 where d2: "GetData s2 q = Some d2"
        "nAllocLength d2 = ?n" "length (data d2) = nat ?n + 1"
        by (auto simp: length_fresh_chars)
      have "q \<noteq> h" using q hl by simp
      then have "GetData s3 q = Some d2" using Release_other [OF rl] d2(1) by simp
      from SetLength_returns [OF this D(1)] d2 sl show ?thesis by auto
    qed
  qed
qed

lemma CloneData_throw:
  assumes "CloneData M s p = Throw e x" "e \<noteq> Fault"
  shows "x = s"
  using assms
  by (auto simp: CloneData_def mgrAllocate_def Let_def
      split: option.splits if_splits prod.splits)

lemma assign_throw:
  assumes st: "state_ok (s, h)"
    and r: "assign M s h src = Throw e x" and ne: "e \<noteq> Fault"
  shows "x = (s, h)"
proof -
  from st obtain dt where dt: "GetData s h = Some dt" "buf_ok dt" and hs: "heap_ok s"
    by (rule state_okD)
  from r ne obtain ds where ds: "GetData s src = Some ds"
    by (auto simp: assign_def split: option.splits)
  have "buf_ok ds" using hs ds by (auto simp: heap_ok_iff)
  note Ds = buf_okD [OF this]
  have n: "nDataLength ds \<le> INT_MAX" using Ds by simp
  show ?thesis
    using r ne ds dt SetString_throw [OF st n _ ne]
    by (auto simp: assign_def split: if_splits result.splits option.splits
        dest: CloneData_throw)
qed

lemma CSimpleStringT_n_throw:
  assumes r: "CSimpleStringT_n M s p n m = Throw e x" and ne: "e \<noteq> Fault"
  shows "x = s"
proof (cases "(p = Null \<and> n \<noteq> 0) \<or> \<not> (0 \<le> n \<and> Admits M m n)")
  case True
  then show ?thesis
    using r by (auto simp: CSimpleStringT_n_def mgrAllocate_def split: if_splits)
next
  case False
  then have n0: "0 \<le> n" and adm: "Admits M m n" by auto
  let ?new = "\<lparr>pStringMgr = m, nDataLength = 0, nAllocLength = n, nRefs = 1,
      data = fresh_chars M 0 (nat n + 1)\<rparr>"
  let ?d2 = "?new\<lparr>nDataLength := n, data := (data ?new)[nat n := NUL]\<rparr>"
  have al: "mgrAllocate M m n s = (Some (length s), s @ [Some ?new])"
    using n0 adm by (simp add: mgrAllocate_def)
  have sl: "SetLength (s @ [Some ?new]) (length s) n =
      Return ((s @ [Some ?new])[length s := Some ?d2], length s)"
    using n0 by (intro SetLength_ok) (simp_all add: GetData_snoc length_fresh_chars)
  show ?thesis
    using r ne False al sl by (auto simp: CSimpleStringT_n_def split: option.splits)
qed

lemma CSimpleStringT_sz_throw:
  assumes r: "CSimpleStringT_sz M s p m = Throw e x" and ne: "e \<noteq> Fault"
  shows "x = s"
proof -
  from r ne obtain n where n: "StringLength s p = Some n"
    by (auto simp: CSimpleStringT_sz_def split: option.splits)
  from CSimpleStringT_n_throw [OF r [unfolded CSimpleStringT_sz_n [OF n]] ne] show ?thesis .
qed

section \<open>The outcome of an operation\<close>

text \<open>The parts of \<open>ok_after\<close>.\<close>

lemma ok_afterI:
  assumes "\<And>m. pinned (s, h) (NilString M m)"
    and "returns_ok r"
    and "\<And>s' h' a. r = Return (s', h') \<Longrightarrow> pinned (s, h) a \<Longrightarrow> pinned (s', h') a"
    and "safe \<Longrightarrow> no_fault r"
    and "\<And>e x. r = Throw e x \<Longrightarrow> e \<noteq> Fault \<Longrightarrow> x = before"
  shows "ok_after M safe before r"
proof (cases r)
  case (Return st)
  obtain s' h' where st: "st = (s', h')" by (cases st)
  have "state_ok (s', h')" using assms(2) Return st by (simp add: returns_ok_def)
  moreover have "pinned (s', h') (NilString M m)" for m
    using assms(3) [OF Return [unfolded st] assms(1)] .
  ultimately show ?thesis using Return st by (simp add: ok_after_def handle_ok_def)
next
  case (Throw e x)
  then show ?thesis using assms(4) assms(5) [OF Throw] by (auto simp: ok_after_def)
qed

lemma handle_okD:
  assumes "handle_ok M (s, h)"
  shows "state_ok (s, h)" "\<And>m. pinned (s, h) (NilString M m)"
    "\<And>m. \<exists>dn. GetData s (NilString M m) = Some dn \<and> nDataLength dn = 0"
proof -
  show st: "state_ok (s, h)" and pn: "\<And>m. pinned (s, h) (NilString M m)"
    using assms by (simp_all add: handle_ok_def)
  show "\<exists>dn. GetData s (NilString M m) = Some dn \<and> nDataLength dn = 0" for m
  proof -
    from pn [of m] obtain dn where dn: "GetData s (NilString M m) = Some dn"
      "nAllocLength dn = 0" by (auto simp: pin_iff)
    have "buf_ok dn" using st dn(1) by (auto simp: state_ok_iff)
    from buf_okD(1,2) [OF this] dn show ?thesis by simp
  qed
qed

lemma raw_okD:
  assumes "raw_ok M (s, h)"
  shows "almost_ok s h" "\<And>m. pinned (s, h) (NilString M m)"
  using assms by (simp_all add: raw_ok_def)

lemma release_ok:
  assumes "raw_ok M (s, h)"
  shows "ok_after M True (s, h) (SetLength s h k)"
proof (rule ok_afterI [OF raw_okD(2) [OF assms]])
  show "returns_ok (SetLength s h k)"
    by (rule returns_okI) (rule almost_ok_SetLength [OF raw_okD(1) [OF assms]])
  show "no_fault (SetLength s h k)" by (rule SetLength_no_fault [OF raw_okD(1) [OF assms]])
qed (auto intro: pin_SetLength dest: SetLength_throw)

lemma GetBuffer_n_after:
  assumes ok: "handle_ok M (s, h)" and n: "n \<le> INT_MAX"
  shows "ok_after M (short s h) (s, h) (GetBuffer_n M s h n)"
proof -
  note H = handle_okD [OF ok]
  from H(1) obtain d where d: "GetData s h = Some d" "buf_ok d" by (rule state_okD)
  show ?thesis
    unfolding GetBuffer_n_def
  proof (rule ok_afterI [OF H(2)])
    show "returns_ok (PrepareWrite M s h n)"
      by (rule returns_okI) (rule state_ok_PrepareWrite [OF H(1) n])
    show "pinned (s', h') a" if "PrepareWrite M s h n = Return (s', h')" "pinned (s, h) a" for s' h' a
      using that by (rule pin_PrepareWrite [OF d n])
    show "no_fault (PrepareWrite M s h n)" if "short s h"
      using that d by (intro PrepareWrite_no_fault [OF d]) (simp add: short_def)
    show "x = (s, h)" if "PrepareWrite M s h n = Throw e x" "e \<noteq> Fault" for e x
      using that by (rule PrepareWrite_throw)
  qed
qed

lemma GetBuffer_after:
  assumes ok: "handle_ok M (s, h)"
  shows "ok_after M (short s h) (s, h) (GetBuffer M s h)"
proof -
  from handle_okD(1) [OF ok] obtain d where d: "GetData s h = Some d" "buf_ok d"
    by (rule state_okD)
  have "nDataLength d \<le> INT_MAX" using buf_okD [OF d(2)] by simp
  from GetBuffer_n_after [OF ok this] show ?thesis
    by (simp add: GetBuffer_PrepareWrite [OF d] GetBuffer_n_def)
qed

lemma mutators_after:
  assumes ok: "handle_ok M (s, h)" and n: "n \<le> INT_MAX"
  shows "ok_after M (short s h \<and> short s src) (s, h) (assign M s h src)"
    "ok_after M (short s h \<and> terminated s p) (s, h) (assign_sz M s h p)"
    "ok_after M (short s h \<and> readable s p n) (s, h) (Append M s h p n)"
    "ok_after M (short s h \<and> terminated s p) (s, h) (Append_sz M s h p)"
    "ok_after M (short s h \<and> GetData s src \<noteq> None) (s, h) (Append_str M s h src)"
    "ok_after M True (s, h) (AppendChar M s h c)"
    "ok_after M (short s h \<and> readable s p n) (s, h) (SetString M s h p n)"
    "ok_after M (short s h \<and> terminated s p) (s, h) (SetString_sz M s h p)"
    "ok_after M (short s h) (s, h) (SetAt M s h i c)"
    "ok_after M (short s h) (s, h) (Truncate M s h n)"
    "ok_after M True (s, h) (Empty M s h)"
    "ok_after M True (s, h) (FreeExtra M s h)"
proof -
  note H = handle_okD [OF ok]
  note st = H(1) and nil = H(3)
  show "ok_after M (short s h \<and> short s src) (s, h) (assign M s h src)"
    by (rule ok_afterI [OF H(2) assign_ok [OF st nil]])
      (auto intro: assign_pin [OF st] assign_no_fault [OF st] dest: assign_throw [OF st])
  show "ok_after M (short s h \<and> terminated s p) (s, h) (assign_sz M s h p)"
    unfolding assign_sz_def
    by (rule ok_afterI [OF H(2) SetString_sz_ok [OF st nil]])
      (auto intro: SetString_sz_pin [OF st] SetString_sz_no_fault [OF st]
        dest: SetString_sz_throw [OF st])
  show "ok_after M (short s h \<and> readable s p n) (s, h) (Append M s h p n)"
    by (rule ok_afterI [OF H(2) Append_ok [OF st]])
      (auto intro: Append_pin [OF st] Append_no_fault [OF st n] dest: Append_throw [OF st])
  show "ok_after M (short s h \<and> terminated s p) (s, h) (Append_sz M s h p)"
    by (rule ok_afterI [OF H(2) Append_sz_ok [OF st]])
      (auto intro: Append_sz_pin [OF st] Append_sz_no_fault [OF st]
        dest: Append_sz_throw [OF st])
  show "ok_after M (short s h \<and> GetData s src \<noteq> None) (s, h) (Append_str M s h src)"
    by (rule ok_afterI [OF H(2) Append_str_ok [OF st]])
      (auto intro: Append_str_pin [OF st] Append_str_no_fault [OF st]
        dest: Append_str_throw [OF st])
  show "ok_after M True (s, h) (AppendChar M s h c)"
    by (rule ok_afterI [OF H(2) AppendChar_ok [OF st]])
      (auto intro: AppendChar_pin [OF st] AppendChar_no_fault [OF st]
        dest: AppendChar_throw [OF st])
  show "ok_after M (short s h \<and> readable s p n) (s, h) (SetString M s h p n)"
    by (rule ok_afterI [OF H(2) SetString_ok [OF st n nil]])
      (auto intro: SetString_pin [OF st n] SetString_no_fault [OF st n]
        dest: SetString_throw [OF st n])
  show "ok_after M (short s h \<and> terminated s p) (s, h) (SetString_sz M s h p)"
    by (rule ok_afterI [OF H(2) SetString_sz_ok [OF st nil]])
      (auto intro: SetString_sz_pin [OF st] SetString_sz_no_fault [OF st]
        dest: SetString_sz_throw [OF st])
  show "ok_after M (short s h) (s, h) (SetAt M s h i c)"
    by (rule ok_afterI [OF H(2) SetAt_ok [OF st]])
      (auto intro: SetAt_pin [OF st] SetAt_no_fault [OF st] dest: SetAt_throw [OF st])
  show "ok_after M (short s h) (s, h) (Truncate M s h n)"
    by (rule ok_afterI [OF H(2) Truncate_ok [OF st n]])
      (auto intro: Truncate_pin [OF st n] Truncate_no_fault [OF st n]
        dest: Truncate_throw [OF st n])
  show "ok_after M True (s, h) (Empty M s h)"
    by (rule ok_afterI [OF H(2) Empty_ok [OF st nil]])
      (auto intro: Empty_pin [OF st] Empty_no_fault [OF st] dest: Empty_throw)
  show "ok_after M True (s, h) (FreeExtra M s h)"
    by (rule ok_afterI [OF H(2) FreeExtra_ok [OF st]])
      (auto intro: FreeExtra_pin [OF st] FreeExtra_no_fault [OF st]
        dest: FreeExtra_throw [OF st])
qed

lemma constructors_after:
  assumes hs: "heap_ok s" and nil: "nil_ok M s" and n: "n \<le> INT_MAX"
  shows "ok_after M (short s src) s (CSimpleStringT_copy M s src)"
    "ok_after M (readable s p n) s (CSimpleStringT_n M s p n m)"
    "ok_after M (terminated s p) s (CSimpleStringT_sz M s p m)"
proof -
  have P: "pinned (s, length s) (NilString M m)" for m using nil by (simp add: nil_ok_pin)
  show "ok_after M (short s src) s (CSimpleStringT_copy M s src)"
    by (rule ok_afterI [OF P CSimpleStringT_copy_ok [OF hs]])
      (auto intro: CSimpleStringT_copy_pin [OF hs] CloneData_no_fault [OF hs]
        dest: CloneData_throw simp: CSimpleStringT_copy_def)
  show "ok_after M (readable s p n) s (CSimpleStringT_n M s p n m)"
    by (rule ok_afterI [OF P CSimpleStringT_n_ok [OF hs n]])
      (auto intro: CSimpleStringT_n_pin CSimpleStringT_n_no_fault [OF hs n]
        dest: CSimpleStringT_n_throw)
  show "ok_after M (terminated s p) s (CSimpleStringT_sz M s p m)"
    by (rule ok_afterI [OF P CSimpleStringT_sz_ok [OF hs]])
      (auto intro: CSimpleStringT_sz_pin CSimpleStringT_sz_no_fault [OF hs]
        dest: CSimpleStringT_sz_throw)
qed

lemma release_after:
  assumes "raw_ok M (s, h)"
  shows "ok_after M True (s, h) (ReleaseBuffer s h k)" "ok_after M True (s, h) (ReleaseBufferSetLength s h k)"
proof -
  from ReleaseBuffer_SetLength [OF raw_okD(1) [OF assms], of k] obtain j where
    "ReleaseBuffer s h k = SetLength s h j" by blast
  then show "ok_after M True (s, h) (ReleaseBuffer s h k)" using release_ok [OF assms, of j] by simp
  show "ok_after M True (s, h) (ReleaseBufferSetLength s h k)"
    using release_ok [OF assms, of k] by (simp add: ReleaseBufferSetLength_def)
qed

lemma raw_write:
  assumes ok: "handle_ok M (s, h)" and d: "GetData s h = Some d"
    and cs: "length cs = length (data d)"
  shows "raw_ok M (s[h := Some (d\<lparr>data := cs\<rparr>)], h)"
proof -
  note H = handle_okD [OF ok]
  have "almost_ok (s[h := Some (d\<lparr>data := cs\<rparr>)]) h"
    by (rule almost_ok_data [OF state_ok_almost [OF H(1)] d cs])
  moreover have "pinned (s[h := Some (d\<lparr>data := cs\<rparr>)], h) (NilString M m)" for m
    by (rule pin_write [OF H(2) d]) simp_all
  ultimately show ?thesis by (simp add: raw_ok_def)
qed

lemma handle_ok_buffer:
  assumes "handle_ok M (s, h)"
  shows "case GetData s h of
           None \<Rightarrow> False
         | Some d \<Rightarrow> nDataLength d \<le> nAllocLength d \<and>
                     nat (nDataLength d) < length (data d) \<and>
                     data d ! nat (nDataLength d) = NUL"
proof -
  from handle_okD(1) [OF assms] obtain d where d: "GetData s h = Some d" "buf_ok d"
    by (rule state_okD)
  from buf_okD [OF d(2)] d(1) show ?thesis by simp
qed

section \<open>Fork on write\<close>

text \<open>
  C1. When the buffer of a handle is shared (reference count above 1), \<^verbatim>\<open>Fork\<close>
  allocates a new buffer from the cloned manager, copies
  \<open>min(oldLength, requestedLength) + 1\<close> character units of the old payload, sets the
  new \<open>nDataLength\<close> to the old length, takes one reference from the old buffer and
  attaches the new buffer, whose count is 1.  \<^verbatim>\<open>GetBuffer\<close> and \<^verbatim>\<open>LockBuffer\<close>
  fork with the current length as requested length, \<^verbatim>\<open>PrepareWrite(L)\<close> with the larger of
  \<open>L\<close> and the current length.  The number of units copied is an \<^verbatim>\<open>int\<close>, so the
  statement is for \<open>min(oldLength, requestedLength)\<close> below \<^verbatim>\<open>INT_MAX\<close>, and for a manager
  that serves the allocation.
\<close>

theorem fork_on_shared_buffer:
  assumes live: "GetData s h = Some d" and shared: "IsShared d" and ok: "buf_ok d"
    and n: "0 \<le> n" and adm: "Admits M (Clone M (pStringMgr d)) n"
    and small: "min (nDataLength d) n < INT_MAX"
  shows "(let copied = nat (min (nDataLength d) n) + 1;
              new = \<lparr>pStringMgr = Clone M (pStringMgr d), nDataLength = nDataLength d,
                      nAllocLength = n, nRefs = 1,
                      data = take copied (data d) @ fresh_chars M copied (nat n + 1)\<rparr>;
              s1 = s[h := Some (d\<lparr>nRefs := nRefs d - 1\<rparr>)] @ [Some new]
          in Fork M s h n = Return (s1, length s) \<and>
             GetData s1 (length s) = Some new \<and>
             GetData s1 h = Some (d\<lparr>nRefs := nRefs d - 1\<rparr>) \<and>
             (n = nDataLength d \<longrightarrow>
                LockBuffer M s h = Return (s1[length s := Some (Lock new)], length s))) \<and>
         GetBuffer M s h = Fork M s h (nDataLength d) \<and>
         (0 \<le> L \<longrightarrow> PrepareWrite M s h L = Fork M s h (max L (nDataLength d)))"
proof -
  note D = buf_okD [OF ok]
  have sh: "1 < nRefs d" using shared by (simp add: IsShared_def)
  have h: "h < length s" using live by (rule GetData_lt)
  have F: "Fork M s h n = Return (s[h := Some (d\<lparr>nRefs := nRefs d - 1\<rparr>)]
                   @ [Some \<lparr>pStringMgr = Clone M (pStringMgr d),
                             nDataLength = nDataLength d, nAllocLength = n, nRefs = 1,
                             data = take (nat (min (nDataLength d) n) + 1) (data d)
                                    @ fresh_chars M (nat (min (nDataLength d) n) + 1) (nat n + 1)\<rparr>],
                   length s)"
    using Fork_shared [OF live sh n adm D(1,6) small] by simp
  have G: "GetBuffer M s h = Fork M s h (nDataLength d)"
    using live shared by (simp add: GetBuffer_def)
  have P: "0 \<le> L \<longrightarrow> PrepareWrite M s h L = Fork M s h (max L (nDataLength d))"
    using PrepareWrite_fork [OF live _ sh] by simp
  let ?new = "\<lparr>pStringMgr = Clone M (pStringMgr d),
                             nDataLength = nDataLength d, nAllocLength = n, nRefs = 1,
                             data = take (nat (min (nDataLength d) n) + 1) (data d)
                                    @ fresh_chars M (nat (min (nDataLength d) n) + 1) (nat n + 1)\<rparr>"
  let ?s1 = "s[h := Some (d\<lparr>nRefs := nRefs d - 1\<rparr>)] @ [Some ?new]"
  have L: "LockBuffer M s h = Return (?s1[length s := Some (Lock ?new)], length s)"
    if e: "n = nDataLength d"
  proof -
    have "Fork M s h (nDataLength d) = Return (?s1, length s)"
      using F e by simp
    then show ?thesis
      using live shared by (simp add: LockBuffer_def poke_def GetData_snoc)
  qed
  show ?thesis
    unfolding Let_def using F G P L h by (simp add: GetData_snoc GetData_upd)
qed

theorem fork_on_shared_buffer_witness:
  "IsShared (str ''hello'' 2) \<and> buf_ok (str ''hello'' 2) \<and>
   Fork mgr0 [Some nil0, Some (str ''hello'' 2)] 1 5
     = Return ([Some nil0, Some (str ''hello'' 1), Some (str ''hello'' 1)], 2) \<and>
   GetBuffer mgr0 [Some nil0, Some (str ''hello'' 2)] 1
     = Fork mgr0 [Some nil0, Some (str ''hello'' 2)] 1 5 \<and>
   PrepareWrite mgr0 [Some nil0, Some (str ''hello'' 2)] 1 3
     = Fork mgr0 [Some nil0, Some (str ''hello'' 2)] 1 5"
  using fork_on_shared_buffer [of "[Some nil0, Some (str ''hello'' 2)]" 1 "str ''hello'' 2" 5 mgr0 3]
  by (simp add: GetData_def str_def IsShared_def buf_ok_def NUL_def INT_MAX_def mgr0_def
      Let_def fresh_chars_def)

section \<open>Growth policy\<close>

text \<open>
  C2, as amended.  For an unshared buffer of capacity \<open>A\<close> and a requested length
  \<open>L\<close> with \<open>A < L\<close>, the capacity passed to the manager's \<^verbatim>\<open>Reallocate\<close> is
  \<open>max(L, A + A/2)\<close> when \<open>A\<close> is at most 1 GiB (1,073,741,824), and
  \<open>max(L, A + 1,048,576)\<close> when \<open>A\<close> is above 1 GiB and \<open>A + 1,048,576\<close> is a 32-bit
  length; when \<open>L \<le> A\<close> nothing is reallocated and the state is unchanged.
\<close>

theorem growth_policy:
  assumes live: "GetData s h = Some d" and unshared: "\<not> IsShared d" and ok: "buf_ok d"
    and L: "0 \<le> L" "L \<le> INT_MAX"
  shows "(nAllocLength d < L \<and> nAllocLength d \<le> 1073741824 \<longrightarrow>
            PrepareWrite M s h L =
              (case mgrReallocate M h (max L (nAllocLength d + nAllocLength d div 2)) s of
                 (None, s1) \<Rightarrow> Throw OutOfMemory (s1, h)
               | (Some p, s1) \<Rightarrow> Return (s1, p))) \<and>
         (nAllocLength d < L \<and> 1073741824 < nAllocLength d \<and>
          nAllocLength d + 1048576 \<le> INT_MAX \<longrightarrow>
            PrepareWrite M s h L =
              (case mgrReallocate M h (max L (nAllocLength d + 1048576)) s of
                 (None, s1) \<Rightarrow> Throw OutOfMemory (s1, h)
               | (Some p, s1) \<Rightarrow> Return (s1, p))) \<and>
         (L \<le> nAllocLength d \<longrightarrow> PrepareWrite M s h L = Return (s, h))"
proof -
  note D = buf_okD [OF ok]
  have r: "nRefs d \<le> 1" using unshared by (simp add: IsShared_def)
  have keep: "L \<le> nAllocLength d \<longrightarrow> PrepareWrite M s h L = Return (s, h)"
    using PrepareWrite_keep [OF live L(1) r] by simp
  have grow: "PrepareWrite M s h L =
      (case mgrReallocate M h (grow_length (nAllocLength d) L) s of
         (None, s1) \<Rightarrow> Throw OutOfMemory (s1, h)
       | (Some p, s1) \<Rightarrow> Return (s1, p))" if lt: "nAllocLength d < L"
  proof -
    have "nAllocLength d < grow_length (nAllocLength d) L" "0 < grow_length (nAllocLength d) L"
      using grow_length_ge [of L "nAllocLength d"] lt D by linarith+
    then show ?thesis
      using PrepareWrite_grow [OF live L(1) r lt] D live by (simp add: Reallocate_def)
  qed
  have g1: "grow_length (nAllocLength d) L = max L (nAllocLength d + nAllocLength d div 2)"
    if "nAllocLength d \<le> 1073741824"
  proof -
    have "to_int (nAllocLength d + nAllocLength d div 2) = nAllocLength d + nAllocLength d div 2"
      using that D by (intro to_int_id) linarith+
    then show ?thesis
      using that D by (simp add: grow_length_def c_div_2 Let_def max_def)
  qed
  have g2: "grow_length (nAllocLength d) L = max L (nAllocLength d + 1048576)"
    if "1073741824 < nAllocLength d" "nAllocLength d + 1048576 \<le> INT_MAX"
  proof -
    have "to_int (nAllocLength d + 1048576) = nAllocLength d + 1048576"
      using that D by (intro to_int_id) (simp_all add: INT_MAX_def)
    then show ?thesis
      using that by (simp add: grow_length_def Let_def max_def)
  qed
  show ?thesis
    using keep grow g1 g2 by simp
qed

theorem growth_policy_witness:
  "\<not> IsShared (str ''abcd'' 1) \<and> buf_ok (str ''abcd'' 1) \<and>
   PrepareWrite mgr0 [Some nil0, Some (str ''abcd'' 1)] 1 5
     = Return ([Some nil0, None,
                Some ((str ''abcd'' 1)\<lparr>nAllocLength := 6, data := ''abcd'' @ [NUL] @ ''??''\<rparr>)], 2) \<and>
   PrepareWrite mgr0 [Some nil0, Some (str ''abcd'' 1)] 1 4
     = Return ([Some nil0, Some (str ''abcd'' 1)], 1)"
  using growth_policy [of "[Some nil0, Some (str ''abcd'' 1)]" 1 "str ''abcd'' 1" 5 mgr0]
    growth_policy [of "[Some nil0, Some (str ''abcd'' 1)]" 1 "str ''abcd'' 1" 4 mgr0]
  apply (simp add: GetData_def str_def IsShared_def buf_ok_def NUL_def INT_MAX_def)
  apply (simp add: mgrReallocate_def GetData_def mgr0_def Let_def fresh_chars_Cons fresh_chars_Nil)
  done

text \<open>
  C2 as stated has the linear growth start at 1 GiB.  At a capacity of exactly
  1,073,741,824 the source still grows by half: the capacity requested is 1,610,612,736
  and not \<open>max(L, A + 1,048,576)\<close>.
\<close>

theorem growth_at_one_gibi_counterexample:
  "GetData [Some big] 0 = Some big \<and> \<not> IsShared big \<and> buf_ok big \<and>
   nAllocLength big = 1073741824 \<and>
   PrepareWrite mgr0 [Some big] 0 1073741825 = Reallocate mgr0 [Some big] 0 1610612736 \<and>
   map_option nAllocLength (attached (PrepareWrite mgr0 [Some big] 0 1073741825))
     = Some 1610612736 \<and>
   (1610612736 :: int) \<noteq> max 1073741825 (1073741824 + 1048576)"
proof -
  have live: "GetData [Some big] 0 = Some big" by (simp add: GetData_def)
  have ok: "buf_ok big" by (simp add: buf_ok_def big_def INT_MAX_def)
  have g: "grow_length 1073741824 1073741825 = 1610612736"
    by (simp add: grow_length_def c_div_def to_int_def)
  have P: "PrepareWrite mgr0 [Some big] 0 1073741825 = Reallocate mgr0 [Some big] 0 1610612736"
    using PrepareWrite_grow [OF live, of 1073741825 mgr0] g by (simp add: big_def)
  have R: "attached (Reallocate mgr0 [Some big] 0 1610612736) =
      Some (big\<lparr>nAllocLength := 1610612736,
              data := data big @ fresh_chars mgr0 (nat (nAllocLength big) + 1) (nat 1610612736 + 1)\<rparr>)"
    by (subst Reallocate_grow [OF live]) (simp_all add: big_def mgr0_def attached_def GetData_def)
  show ?thesis
    using live ok P R by (simp add: IsShared_def) (simp add: big_def)
qed

section \<open>Lock and unlock\<close>

text \<open>
  C8. On a unique buffer (count 1) \<^verbatim>\<open>Lock\<close> followed by \<^verbatim>\<open>Unlock\<close> gives the header
  back as it was: characters and \<open>nDataLength\<close> unchanged, count 1 again; the same holds
  for \<^verbatim>\<open>LockBuffer\<close> and \<^verbatim>\<open>UnlockBuffer\<close> on the store.  A shared buffer violates
  the assertion of \<^verbatim>\<open>Lock\<close>, and \<^verbatim>\<open>LockBuffer\<close> on a shared buffer forks first (for a
  length below \<^verbatim>\<open>INT_MAX\<close> and a manager that serves the allocation), so that
  \<^verbatim>\<open>Lock\<close> runs on the new buffer, whose count is 1.
\<close>

theorem lock_unlock_round_trip:
  "(nRefs d = 1 \<longrightarrow>
      Lock_assert d \<and> IsLocked (Lock d) \<and> Unlock (Lock d) = d \<and>
      data (Unlock (Lock d)) = data d \<and> nDataLength (Unlock (Lock d)) = nDataLength d \<and>
      nRefs (Unlock (Lock d)) = 1) \<and>
   (nRefs d = 1 \<and> GetData s h = Some d \<longrightarrow>
      LockBuffer M s h = Return (s[h := Some (Lock d)], h) \<and>
      UnlockBuffer (s[h := Some (Lock d)]) h = Return (s, h)) \<and>
   (IsShared d \<longrightarrow> \<not> Lock_assert d) \<and>
   (IsShared d \<and> GetData s h = Some d \<and> buf_ok d \<and> nDataLength d < INT_MAX \<and>
    Admits M (Clone M (pStringMgr d)) (nDataLength d) \<longrightarrow>
      (let new = \<lparr>pStringMgr = Clone M (pStringMgr d), nDataLength = nDataLength d,
                   nAllocLength = nDataLength d, nRefs = 1,
                   data = take (nat (nDataLength d) + 1) (data d)\<rparr>;
           s1 = s[h := Some (d\<lparr>nRefs := nRefs d - 1\<rparr>)] @ [Some new]
       in Fork M s h (nDataLength d) = Return (s1, length s) \<and>
          Lock_assert new \<and> content new = content d \<and>
          LockBuffer M s h = Return (s1[length s := Some (Lock new)], length s)))"
proof (intro conjI impI)
  assume "nRefs d = 1 \<and> GetData s h = Some d"
  then have r: "nRefs d = 1" and live: "GetData s h = Some d" by simp_all
  have h: "h < length s" using live by (rule GetData_lt)
  show "LockBuffer M s h = Return (s[h := Some (Lock d)], h)"
    using live r by (simp add: LockBuffer_unique)
  have "GetData (s[h := Some (Lock d)]) h = Some (Lock d)"
    using h by (simp add: GetData_upd)
  from UnlockBuffer_live [OF this]
  show "UnlockBuffer (s[h := Some (Lock d)]) h = Return (s, h)"
    using r live by (simp add: Unlock_Lock list_update_same_Some)
next
  assume a: "IsShared d \<and> GetData s h = Some d \<and> buf_ok d \<and> nDataLength d < INT_MAX \<and>
    Admits M (Clone M (pStringMgr d)) (nDataLength d)"
  then have sh: "1 < nRefs d" and live: "GetData s h = Some d" and ok: "buf_ok d"
    and adm: "Admits M (Clone M (pStringMgr d)) (nDataLength d)"
    and small: "min (nDataLength d) (nDataLength d) < INT_MAX"
    by (simp_all add: IsShared_def)
  note D = buf_okD [OF ok]
  have h: "h < length s" using live by (rule GetData_lt)
  let ?new = "\<lparr>pStringMgr = Clone M (pStringMgr d), nDataLength = nDataLength d,
     nAllocLength = nDataLength d, nRefs = 1,
     data = take (nat (nDataLength d) + 1) (data d)\<rparr>"
  let ?s1 = "s[h := Some (d\<lparr>nRefs := nRefs d - 1\<rparr>)] @ [Some ?new]"
  have F: "Fork M s h (nDataLength d) = Return (?s1, length s)"
    using Fork_shared [OF live sh D(1) adm D(1,6) small] by (simp add: fresh_chars_def)
  have G: "GetData ?s1 (length s) = Some ?new" by (simp add: GetData_snoc)
  have L: "LockBuffer M s h = Return (?s1[length s := Some (Lock ?new)], length s)"
    using live sh G by (simp add: LockBuffer_def IsShared_def F poke_def)
  have C: "content ?new = content d" using D by (simp add: content_def)
  show "let new = ?new; s1 = s[h := Some (d\<lparr>nRefs := nRefs d - 1\<rparr>)] @ [Some new]
       in Fork M s h (nDataLength d) = Return (s1, length s) \<and>
          Lock_assert new \<and> content new = content d \<and>
          LockBuffer M s h = Return (s1[length s := Some (Lock new)], length s)"
    unfolding Let_def using F L C by (simp add: Lock_assert_def)
qed (simp_all add: Lock_assert_def IsShared_def IsLocked_def Lock_def Unlock_def)

theorem lock_unlock_round_trip_witness:
  "nRefs (str ''hi'' 1) = 1 \<and> Unlock (Lock (str ''hi'' 1)) = str ''hi'' 1 \<and>
   nRefs (Lock (str ''hi'' 1)) = - 1 \<and>
   LockBuffer mgr0 [Some nil0, Some (str ''hi'' 1)] 1
     = Return ([Some nil0, Some (Lock (str ''hi'' 1))], 1) \<and>
   UnlockBuffer [Some nil0, Some (Lock (str ''hi'' 1))] 1
     = Return ([Some nil0, Some (str ''hi'' 1)], 1) \<and>
   IsShared (str ''hi'' 2) \<and> \<not> Lock_assert (str ''hi'' 2) \<and>
   LockBuffer mgr0 [Some nil0, Some (str ''hi'' 2)] 1
     = Return ([Some nil0, Some (str ''hi'' 1), Some (Lock (str ''hi'' 1))], 2)"
  using lock_unlock_round_trip [of "str ''hi'' 1" "[Some nil0, Some (str ''hi'' 1)]" 1 mgr0]
    lock_unlock_round_trip [of "str ''hi'' 2" "[Some nil0, Some (str ''hi'' 2)]" 1 mgr0]
  by (simp add: GetData_def str_def IsShared_def buf_ok_def NUL_def INT_MAX_def mgr0_def
      Lock_def Unlock_def IsLocked_def Lock_assert_def Let_def)

section \<open>Empty\<close>

text \<open>
  C6. \<^verbatim>\<open>Empty\<close> (also reached by \<^verbatim>\<open>SetString\<close> with length 0) on a buffer that is
  not empty and not locked releases the buffer and attaches the nil buffer of its manager;
  on a locked buffer it only sets the length to zero, with the terminator at index 0, and
  the handle keeps its buffer; on a buffer that is already empty it changes nothing.
\<close>

theorem empty_resets:
  assumes live: "GetData s h = Some d" and ok: "buf_ok d"
  shows "(nDataLength d = 0 \<longrightarrow> Empty M s h = Return (s, h)) \<and>
         (nDataLength d \<noteq> 0 \<and> IsLocked d \<longrightarrow>
            Empty M s h =
              Return (s[h := Some (d\<lparr>nDataLength := 0, data := (data d)[0 := NUL]\<rparr>)], h)) \<and>
         (nDataLength d \<noteq> 0 \<and> \<not> IsLocked d \<longrightarrow>
            Release s h =
              Some (s[h := (if nRefs d \<le> 1 then None
                            else Some (d\<lparr>nRefs := nRefs d - 1\<rparr>))]) \<and>
            Empty M s h =
              Return (snd (mgrGetNilString M (pStringMgr d)
                             (s[h := (if nRefs d \<le> 1 then None
                                      else Some (d\<lparr>nRefs := nRefs d - 1\<rparr>))])),
                      NilString M (pStringMgr d))) \<and>
         SetString M s h pszSrc 0 = Empty M s h"
proof -
  note D = buf_okD [OF ok]
  have "SetLength s h 0 =
      Return (s[h := Some (d\<lparr>nDataLength := 0, data := (data d)[0 := NUL]\<rparr>)], h)"
    using SetLength_ok [OF live, of 0] D by simp
  then show ?thesis
    using live Release_eq [OF live]
    by (simp add: Empty_def Empty_SetString mgrGetNilString_def Let_def)
qed

theorem empty_resets_witness:
  "buf_ok (str ''hello'' 1) \<and> buf_ok (str ''hello'' (- 1)) \<and> buf_ok nil0 \<and>
   nDataLength (str ''hello'' 1) \<noteq> 0 \<and> \<not> IsLocked (str ''hello'' 1) \<and>
   Empty mgr0 [Some nil0, Some (str ''hello'' 1)] 1
     = Return ([Some (nil0\<lparr>nRefs := 3\<rparr>), None], 0) \<and>
   IsLocked (str ''hello'' (- 1)) \<and>
   Empty mgr0 [Some nil0, Some (str ''hello'' (- 1))] 1
     = Return ([Some nil0, Some ((str ''hello'' (- 1))\<lparr>nDataLength := 0,
                                    data := [NUL] @ ''ello'' @ [NUL]\<rparr>)], 1) \<and>
   Empty mgr0 [Some nil0] 0 = Return ([Some nil0], 0)"
  using empty_resets [of "[Some nil0, Some (str ''hello'' 1)]" 1 "str ''hello'' 1" mgr0]
    empty_resets [of "[Some nil0, Some (str ''hello'' (- 1))]" 1 "str ''hello'' (- 1)" mgr0]
    empty_resets [of "[Some nil0]" 0 nil0 mgr0]
  by (simp add: GetData_def str_def nil0_def IsLocked_def buf_ok_def NUL_def INT_MAX_def mgr0_def
      mgrGetNilString_def AddRef_def)

section \<open>Append\<close>

text \<open>
  C10. For \<^verbatim>\<open>Append(pszSrc, nLength)\<close> with \<open>nLength \<ge> 0\<close> the characters appended are
  the first \<open>nLength\<close> characters of the source cut at the first terminator
  (\<open>clamped\<close>), their number is what \<^verbatim>\<open>StringLengthN\<close> (\<^verbatim>\<open>strnlen\<close>) returns, and the
  new length is the old length plus that number.  The call returns when the manager serves
  every request, the source can be read, the old length is below \<^verbatim>\<open>INT_MAX\<close>, the new
  length is a 32-bit length and the source does not point behind the terminator of the
  handle's own buffer.
\<close>

theorem append_clamps_at_terminator:
  assumes live: "GetData s h = Some d" and ok: "buf_ok d" and n: "0 \<le> n" "n \<le> INT_MAX"
  shows "(Append M s h p n = Return (s', h') \<longrightarrow>
            StringLengthN s p (nat n) = Some (int (length (clamped s p (nat n)))) \<and>
            map_option nDataLength (GetData s' h')
              = Some (nDataLength d + int (length (clamped s p (nat n)))) \<and>
            map_option content (GetData s' h') = Some (content d @ clamped s p (nat n))) \<and>
         ((\<forall>m k. Admits M m k) \<and> StringLengthN s p (nat n) \<noteq> None \<and>
          nDataLength d < INT_MAX \<and>
          nDataLength d + int (length (clamped s p (nat n))) \<le> INT_MAX \<and>
          (\<forall>off. p = Payload h off \<longrightarrow> 0 \<le> off \<and> off \<le> nDataLength d) \<longrightarrow>
            returned (Append M s h p n) \<noteq> None)"
proof (intro conjI impI)
  assume ret: "Append M s h p n = Return (s', h')"
  show "StringLengthN s p (nat n) = Some (int (length (clamped s p (nat n))))"
    by (rule Append_Return [OF live ok n(2) ret])
  show "map_option nDataLength (GetData s' h')
          = Some (nDataLength d + int (length (clamped s p (nat n))))"
    by (rule Append_Return [OF live ok n(2) ret]) simp
  show "map_option content (GetData s' h') = Some (content d @ clamped s p (nat n))"
    by (rule Append_Return [OF live ok n(2) ret]) simp
next
  assume a: "(\<forall>m k. Admits M m k) \<and> StringLengthN s p (nat n) \<noteq> None \<and>
          nDataLength d < INT_MAX \<and>
          nDataLength d + int (length (clamped s p (nat n))) \<le> INT_MAX \<and>
          (\<forall>off. p = Payload h off \<longrightarrow> 0 \<le> off \<and> off \<le> nDataLength d)"
  then obtain k where SL: "StringLengthN s p (nat n) = Some k" by auto
  have nn: "nat n \<le> 2147483647" using n by (simp add: INT_MAX_def)
  have k: "k = int (length (clamped s p (nat n)))" by (rule StringLengthN_Some(1) [OF SL nn])
  have "\<exists>s' h'. Append M s h p n = Return (s', h')"
    using a k by (intro Append_returns [OF live ok n _ SL]) simp_all
  then show "returned (Append M s h p n) \<noteq> None"
    by (auto simp: returned_def)
qed

theorem append_clamps_at_terminator_witness:
  "buf_ok (str ''hi'' 1) \<and>
   clamped [Some nil0, Some (str ''hi'' 1)] (Mem [CHR ''a'', NUL, CHR ''b'']) 3 = ''a'' \<and>
   StringLengthN [Some nil0, Some (str ''hi'' 1)] (Mem [CHR ''a'', NUL, CHR ''b'']) 3 = Some 1 \<and>
   map_option nDataLength
     (attached (Append mgr0 [Some nil0, Some (str ''hi'' 1)] 1 (Mem [CHR ''a'', NUL, CHR ''b'']) 3))
     = Some 3 \<and>
   map_option content
     (attached (Append mgr0 [Some nil0, Some (str ''hi'' 1)] 1 (Mem [CHR ''a'', NUL, CHR ''b'']) 3))
     = Some ''hia''"
proof -
  let ?s = "[Some nil0, Some (str ''hi'' 1)]"
  let ?p = "Mem [CHR ''a'', NUL, CHR ''b'']"
  have live: "GetData ?s 1 = Some (str ''hi'' 1)" by (simp add: GetData_def)
  have ok: "buf_ok (str ''hi'' 1)" by (simp add: buf_ok_def str_def INT_MAX_def)
  have c: "clamped ?s ?p 3 = ''a''"
    by (simp add: clamped_def src_chars_def chars_at_def NUL_def)
  have sl: "StringLengthN ?s ?p 3 = Some 1"
    by (simp add: StringLengthN_def chars_at_def strnlen_def NUL_def to_int_def)
  have n: "(0::int) \<le> 3" "(3::int) \<le> INT_MAX" by (simp_all add: INT_MAX_def)
  note T = append_clamps_at_terminator [OF live ok n, of mgr0 ?p]
  have "returned (Append mgr0 ?s 1 ?p 3) \<noteq> None"
    using T [of "[]" 0] c sl by (simp add: mgr0_def str_def INT_MAX_def)
  then obtain s' h' where r: "Append mgr0 ?s 1 ?p 3 = Return (s', h')"
    by (elim returnedE) auto
  from T [of s' h'] r c have
    "map_option nDataLength (attached (Append mgr0 ?s 1 ?p 3)) = Some 3"
    "map_option content (attached (Append mgr0 ?s 1 ?p 3)) = Some ''hia''"
    by (simp_all add: attached_def str_def content_def)
  then show ?thesis using ok c sl by simp
qed

text \<open>
  C5, as amended.  A negative incoming length is rejected with \<open>InvalidArgument\<close>; so
  is a call where the old length plus the length that \<^verbatim>\<open>StringLengthN\<close> returns (the
  incoming length clamped at the first terminator) exceeds \<open>INT_MAX\<close>; both leave store
  and handle unchanged.  When \<^verbatim>\<open>Append\<close> returns, the new length is the old length
  plus the clamped length.
\<close>

theorem append_length_and_rejection:
  assumes live: "GetData s h = Some d" and ok: "buf_ok d" and n: "n \<le> INT_MAX"
  shows "(n < 0 \<longrightarrow> Append M s h p n = Throw InvalidArgument (s, h)) \<and>
         (0 \<le> n \<and> StringLengthN s p (nat n) = Some k \<and> INT_MAX < nDataLength d + k \<longrightarrow>
            Append M s h p n = Throw InvalidArgument (s, h)) \<and>
         (Append M s h p n = Return (s', h') \<longrightarrow>
            0 \<le> n \<and>
            StringLengthN s p (nat n) = Some (int (length (clamped s p (nat n)))) \<and>
            nDataLength d + int (length (clamped s p (nat n))) \<le> INT_MAX \<and>
            map_option nDataLength (GetData s' h')
              = Some (nDataLength d + int (length (clamped s p (nat n)))))"
proof (intro conjI impI)
  assume "n < 0"
  then show "Append M s h p n = Throw InvalidArgument (s, h)"
    by (rule Append_negative [OF live])
next
  assume a: "0 \<le> n \<and> StringLengthN s p (nat n) = Some k \<and> INT_MAX < nDataLength d + k"
  then show "Append M s h p n = Throw InvalidArgument (s, h)"
    using Append_unfold [OF live ok _ n, of p k M] by simp
next
  assume ret: "Append M s h p n = Return (s', h')"
  show "0 \<le> n" by (rule Append_Return [OF live ok n ret])
  show "StringLengthN s p (nat n) = Some (int (length (clamped s p (nat n))))"
    by (rule Append_Return [OF live ok n ret])
  show "nDataLength d + int (length (clamped s p (nat n))) \<le> INT_MAX"
    by (rule Append_Return [OF live ok n ret])
  show "map_option nDataLength (GetData s' h')
          = Some (nDataLength d + int (length (clamped s p (nat n))))"
    by (rule Append_Return [OF live ok n ret]) simp
qed

theorem append_length_and_rejection_witness:
  "buf_ok (str ''hi'' 1) \<and> buf_ok full \<and>
   Append mgr0 [Some nil0, Some (str ''hi'' 1)] 1 (Mem [CHR ''a'', NUL, CHR ''b'']) (- 1)
     = Throw InvalidArgument ([Some nil0, Some (str ''hi'' 1)], 1) \<and>
   StringLengthN [Some full] (Mem [CHR ''b'', NUL]) (nat 1) = Some 1 \<and>
   INT_MAX < nDataLength full + 1 \<and>
   Append mgr0 [Some full] 0 (Mem [CHR ''b'', NUL]) 1 = Throw InvalidArgument ([Some full], 0) \<and>
   Append mgr0 [Some nil0, Some (str ''hi'' 1)] 1 (Mem [CHR ''a'', NUL, CHR ''b'']) 3
     = Return ([Some nil0, None,
                Some \<lparr>pStringMgr = 0, nDataLength = 3, nAllocLength = 3, nRefs = 1,
                       data = ''hia'' @ [NUL]\<rparr>], 2) \<and>
   clamped [Some nil0, Some (str ''hi'' 1)] (Mem [CHR ''a'', NUL, CHR ''b'']) (nat 3) = ''a''"
proof -
  let ?s = "[Some nil0, Some (str ''hi'' 1)]"
  let ?p = "Mem [CHR ''a'', NUL, CHR ''b'']"
  have live: "GetData ?s 1 = Some (str ''hi'' 1)" by (simp add: GetData_def)
  have ok: "buf_ok (str ''hi'' 1)" by (simp add: buf_ok_def str_def INT_MAX_def)
  have livef: "GetData [Some full] 0 = Some full" by (simp add: GetData_def)
  have okf: "buf_ok full" by (simp add: buf_ok_def full_def INT_MAX_def nth_append)
  have sl: "StringLengthN [Some full] (Mem [CHR ''b'', NUL]) (nat 1) = Some 1"
    by (simp add: StringLengthN_def chars_at_def strnlen_def NUL_def to_int_def)
  have over: "INT_MAX < nDataLength full + 1" by (simp add: full_def INT_MAX_def)
  have r: "Append mgr0 ?s 1 ?p 3
     = Return ([Some nil0, None,
                Some \<lparr>pStringMgr = 0, nDataLength = 3, nAllocLength = 3, nRefs = 1,
                       data = ''hia'' @ [NUL]\<rparr>], 2)"
    by code_simp
  have c: "clamped ?s ?p (nat 3) = ''a''"
    by (simp add: clamped_def src_chars_def chars_at_def NUL_def)
  have 1: "Append mgr0 ?s 1 ?p (- 1) = Throw InvalidArgument (?s, 1)"
    using append_length_and_rejection [OF live ok, where n = "- 1" and M = mgr0 and p = ?p]
    by (simp add: INT_MAX_def)
  have 2: "Append mgr0 [Some full] 0 (Mem [CHR ''b'', NUL]) 1 = Throw InvalidArgument ([Some full], 0)"
    using append_length_and_rejection [OF livef okf, where n = 1 and M = mgr0
        and p = "Mem [CHR ''b'', NUL]" and k = 1] sl over
    by (simp add: INT_MAX_def)
  have 3: "map_option nDataLength (GetData [Some nil0, None,
                Some \<lparr>pStringMgr = 0, nDataLength = 3, nAllocLength = 3, nRefs = 1,
                       data = ''hia'' @ [NUL]\<rparr>] 2) = Some (nDataLength (str ''hi'' 1) + int (length (clamped ?s ?p (nat 3))))"
    using append_length_and_rejection [OF live ok, where n = 3 and M = mgr0 and p = ?p] r
    by (simp add: INT_MAX_def)
  show ?thesis using ok okf 1 2 r c sl over by simp
qed

text \<open>
  C5 as stated has the new length equal to the old length plus the incoming length.
  Appending three characters whose second is a terminator to a string of length 2 gives
  length 3, not 5.
\<close>

theorem append_unclamped_length_counterexample:
  "map_option nDataLength
     (attached (Append mgr0 [Some nil0, Some (str ''hi'' 1)] 1 (Mem [CHR ''a'', NUL, CHR ''b'']) 3))
     = Some 3 \<and>
   nDataLength (str ''hi'' 1) + 3 = 5"
  by code_simp

text \<open>
  C4. Appending a span of the handle's own payload that starts at an offset in
  \<open>[0, nDataLength]\<close> has the same outcome, store and handle, as appending a copy of that
  span held outside the store, for every manager (relocating or not) and every reference
  count (forking or not).
\<close>

theorem self_append:
  assumes live: "GetData s h = Some d" and ok: "buf_ok d"
    and off: "0 \<le> off" "off \<le> nDataLength d" and n: "n \<le> INT_MAX"
  shows "Append M s h (Payload h off) n
           = Append M s h (Mem (take (nat n) (drop (nat off) (data d)))) n"
proof (cases "n < 0")
  case True
  then show ?thesis using Append_negative [OF live True] by simp
next
  case False
  then have n0: "0 \<le> n" by simp
  note D = buf_okD [OF ok]
  let ?old = "nDataLength d"
  let ?p = "Payload h off"
  let ?cs = "drop (nat off) (data d)"
  let ?q = "Mem (take (nat n) ?cs)"
  let ?kk = "length (clamped s ?p (nat n))"
  have nn: "nat n \<le> 2147483647" using n by (simp add: INT_MAX_def)
  have o: "nat off \<le> nat ?old" "nat off \<le> length (data d)" using off D by linarith+
  have cs: "chars_at s ?p = Some ?cs" using live off o by (simp add: chars_at_def)
  have f: "nat off + ?kk \<le> nat ?old" by (rule clamped_own_fits [OF live ok off])
  have cq: "clamped s ?q (nat n) = clamped s ?p (nat n)"
    using cs by (simp add: clamped_def src_chars_def chars_at_def)
  have kn: "?kk \<le> nat n" using StringLengthN_Some(2) [OF StringLengthN_own [OF live ok off nn] nn] .
  have kl: "?kk < length ?cs" using f o D by (simp, arith)
  have SLp: "StringLengthN s ?p (nat n) = Some (int ?kk)"
    by (rule StringLengthN_own [OF live ok off nn])
  have w: "length (takeWhile (\<lambda>c. c \<noteq> NUL) (take (nat n) ?cs)) = ?kk"
    using cs by (simp add: clamped_def src_chars_def)
  have SLq: "StringLengthN s ?q (nat n) = Some (int ?kk)"
  proof (cases "nat n = 0")
    case True
    then show ?thesis using kn by (simp add: StringLengthN_def)
  next
    case False
    have "strnlen (take (nat n) ?cs) (nat n) = Some ?kk"
      using w kn kl by (auto simp: strnlen_def Let_def)
    moreover have "to_int (int ?kk) = int ?kk"
      using kn nn by (intro to_int_id) simp_all
    ultimately show ?thesis using False by (simp add: StringLengthN_def chars_at_def)
  qed
  have oo: "own_offset ?p h ?old = Some off" "own_offset ?q h ?old = None"
    using off by (simp_all add: own_offset_def)
  have copy: "CopyChars s1 h1 ?old (Payload h1 off) (int ?kk) = CopyChars s1 h1 ?old ?q (int ?kk)"
    if pw: "PrepareWrite M s h (?old + int ?kk) = Return (s1, h1)"
      and m: "?old + int ?kk \<le> INT_MAX" for s1 h1
  proof (rule PrepareWrite_Return [OF live ok m pw], goal_cases)
    case (1 d1)
    note d1 = 1(1) and ok1 = 1(2) and pre = 1(6)
    note D1 = buf_okD [OF ok1]
    have dl: "nat ?old < length (data d1)" using 1(5) D1(6) by simp
    have l1: "nat off + ?kk \<le> length (data d1)" "?kk \<le> length (data d1) - nat off"
      "nat off \<le> length (data d1)"
      using f dl by arith+
    have "take ?kk (drop (nat off) (data d1)) = take ?kk ?cs"
      using take_drop_prefix [OF pre, of "nat off" ?kk] f by simp
    then have rd: "read_chars s1 (Payload h1 off) ?kk = read_chars s1 ?q ?kk"
      using d1 off l1 kn kl by (simp add: read_chars_def chars_at_def min_absorb1)
    have "off + int ?kk \<le> ?old" using f off D by linarith
    then have nov: "overlaps h1 ?old (Payload h1 off) ?kk = False"
      by (simp add: overlaps_def)
    have novq: "overlaps h1 ?old ?q ?kk = False"
      by (simp add: overlaps_def)
    show ?case by (simp add: CopyChars_def nov novq rd)
  qed
  show ?thesis
    unfolding Append_unfold [OF live ok n0 n SLp] Append_unfold [OF live ok n0 n SLq] oo
    using copy by (auto split: result.splits)
qed

theorem self_append_witness:
  "buf_ok (str ''hello'' 2) \<and>
   take (nat 3) (drop (nat 1) (data (str ''hello'' 2))) = ''ell'' \<and>
   Append mgr0 [Some nil0, Some (str ''hello'' 2)] 1 (Payload 1 1) 3
     = Append mgr0 [Some nil0, Some (str ''hello'' 2)] 1 (Mem ''ell'') 3 \<and>
   Append mgr0 [Some nil0, Some (str ''hello'' 2)] 1 (Payload 1 1) 3
     = Return ([Some nil0, Some (str ''hello'' 1),
                Some \<lparr>pStringMgr = 0, nDataLength = 8, nAllocLength = 8, nRefs = 1,
                       data = ''helloell'' @ [NUL]\<rparr>], 2)"
proof -
  let ?s = "[Some nil0, Some (str ''hello'' 2)]"
  have live: "GetData ?s 1 = Some (str ''hello'' 2)" by (simp add: GetData_def)
  have ok: "buf_ok (str ''hello'' 2)" by (simp add: buf_ok_def str_def INT_MAX_def NUL_def)
  have t: "take (nat 3) (drop (nat 1) (data (str ''hello'' 2))) = ''ell''"
    by (simp add: str_def)
  have e: "Append mgr0 ?s 1 (Payload 1 1) 3 = Append mgr0 ?s 1 (Mem ''ell'') 3"
    using self_append [OF live ok, where off = 1 and n = 3 and M = mgr0] t by (simp add: str_def INT_MAX_def)
  have r: "Append mgr0 ?s 1 (Payload 1 1) 3
     = Return ([Some nil0, Some (str ''hello'' 1),
                Some \<lparr>pStringMgr = 0, nDataLength = 8, nAllocLength = 8, nRefs = 1,
                       data = ''helloell'' @ [NUL]\<rparr>], 2)"
    by code_simp
  show ?thesis using ok t e r by simp
qed

section \<open>Concatenation\<close>

text \<open>
  C7. \<^verbatim>\<open>operator+\<close> on two handles returns a handle to a buffer that was not in the
  store before, of length \<open>length(a) + length(b)\<close>, holding the characters of \<open>a\<close>
  followed by those of \<open>b\<close>; the store it returns is the old store with this one buffer
  added, so no buffer of \<open>a\<close> or \<open>b\<close> has changed in content, length, count or place.
  This needs the sum of the lengths to be a 32-bit length and the manager to serve the
  request; beyond \<open>INT_MAX\<close> the call throws \<open>InvalidArgument\<close> and leaves the store as it
  was.  The nil buffer of the cloned manager is the pinned empty buffer of the data model.
\<close>

theorem concatenation:
  assumes a: "GetData s a = Some da" and b: "GetData s b = Some db"
    and oka: "buf_ok da" and okb: "buf_ok db"
    and nil: "GetData s (NilString M (Clone M (pStringMgr da))) = Some dn"
    and pinned: "1 \<le> nRefs dn" and okn: "buf_ok dn" and nil0: "nDataLength dn = 0"
  shows "(nDataLength da + nDataLength db \<le> INT_MAX \<and>
          Admits M (Clone M (pStringMgr dn)) (nDataLength da + nDataLength db) \<longrightarrow>
            operator_plus M s a b =
              Return (s @ [Some \<lparr>pStringMgr = Clone M (pStringMgr dn),
                                   nDataLength = nDataLength da + nDataLength db,
                                   nAllocLength = nDataLength da + nDataLength db,
                                   nRefs = 1,
                                   data = content da @ content db @ [NUL]\<rparr>],
                      length s)) \<and>
         (INT_MAX < nDataLength da + nDataLength db \<longrightarrow>
            operator_plus M s a b = Throw InvalidArgument s)"
proof (intro conjI impI)
  note Da = buf_okD [OF oka] and Db = buf_okD [OF okb] and Dn = buf_okD [OF okn]
  let ?N = "NilString M (Clone M (pStringMgr da))"
  let ?la = "nDataLength da" and ?lb = "nDataLength db"
  let ?L = "?la + ?lb"
  let ?s0 = "s[?N := Some (AddRef dn)]"
  have N: "?N < length s" using nil by (rule GetData_lt)
  have ctor: "CSimpleStringT M s (GetManager M da) = (?s0, ?N)"
    using nil by (simp add: CSimpleStringT_def GetManager_def mgrGetNilString_def Let_def)
  have g0: "GetData ?s0 ?N = Some (AddRef dn)" using N by (simp add: GetData_upd)
  have sh: "1 < nRefs (AddRef dn)" using pinned by (simp add: AddRef_def)
  have undo: "?s0[?N := Some (AddRef dn\<lparr>nRefs := nRefs (AddRef dn) - 1\<rparr>)] = s"
    using nil by (simp add: AddRef_def list_update_same_Some)
  {
    assume h: "?L \<le> INT_MAX \<and> Admits M (Clone M (pStringMgr dn)) ?L"
    have L0: "0 \<le> ?L" using Da Db by simp
    have ti: "to_int ?L = ?L" using h L0 by (intro to_int_id) (simp_all add: INT_MAX_def)
    let ?new = "\<lparr>pStringMgr = Clone M (pStringMgr dn), nDataLength = 0, nAllocLength = ?L,
       nRefs = 1, data = take 1 (data dn) @ fresh_chars M 1 (nat ?L + 1)\<rparr>"
    have "Fork M ?s0 ?N (max ?L (nDataLength (AddRef dn))) =
        Return (?s0[?N := Some (AddRef dn\<lparr>nRefs := nRefs (AddRef dn) - 1\<rparr>)] @
          [Some \<lparr>pStringMgr = Clone M (pStringMgr (AddRef dn)),
                  nDataLength = nDataLength (AddRef dn),
                  nAllocLength = max ?L (nDataLength (AddRef dn)), nRefs = 1,
                  data = take (nat (min (nDataLength (AddRef dn)) (max ?L (nDataLength (AddRef dn)))) + 1)
                           (data (AddRef dn)) @
                         fresh_chars M (nat (min (nDataLength (AddRef dn))
                           (max ?L (nDataLength (AddRef dn)))) + 1)
                           (nat (max ?L (nDataLength (AddRef dn))) + 1)\<rparr>], length ?s0)"
      using h L0 nil0 Dn by (intro Fork_shared [OF g0 sh]) (simp_all add: AddRef_def INT_MAX_def)
    then have pw: "PrepareWrite M ?s0 ?N ?L = Return (s @ [Some ?new], length s)"
      using PrepareWrite_fork [OF g0 L0 sh, of M] undo L0 nil0
      by (simp add: AddRef_def max_absorb1 min_absorb1)
    let ?s1 = "s @ [Some ?new]"
    have la: "a < length s" and lb: "b < length s" using a b by (auto dest: GetData_lt)
    have lnew: "length (data ?new) = nat ?L + 1"
      using Dn L0 by (simp add: length_fresh_chars)
    have c1: "CopyChars ?s1 (length s) 0 (Payload a 0) ?la =
        Some (?s1[length s := Some (?new\<lparr>data := write_chars (data ?new) (nat 0)
               (take (nat ?la) (drop (nat 0) (data da)))\<rparr>)])"
      using a la Da Db lnew
      by (intro CopyChars_other) (simp_all add: GetData_snoc nat_add_distrib)
    let ?d1 = "?new\<lparr>data := write_chars (data ?new) 0 (content da)\<rparr>"
    let ?s2 = "s @ [Some ?d1]"
    have c1': "CopyChars ?s1 (length s) 0 (Payload a 0) ?la = Some ?s2"
      using c1 by (simp add: content_def list_update_append)
    have l1: "length (data ?d1) = nat ?L + 1"
      using lnew Da Db by (simp add: write_chars_length content_def nat_add_distrib)
    have c2: "CopyChars ?s2 (length s) ?la (Payload b 0) ?lb =
        Some (?s2[length s := Some (?d1\<lparr>data := write_chars (data ?d1) (nat ?la)
               (take (nat ?lb) (drop (nat 0) (data db)))\<rparr>)])"
      using b lb Da Db l1
      by (intro CopyChars_other) (simp_all add: GetData_snoc nat_add_distrib)
    let ?d2 = "?d1\<lparr>data := write_chars (data ?d1) (nat ?la) (content db)\<rparr>"
    let ?s3 = "s @ [Some ?d2]"
    have c2': "CopyChars ?s2 (length s) ?la (Payload b 0) ?lb = Some ?s3"
      using c2 by (simp add: content_def list_update_append)
    have l2: "length (data ?d2) = nat ?L + 1"
      using l1 Da Db by (simp add: write_chars_length content_def nat_add_distrib)
    have sl: "SetLength ?s3 (length s) ?L =
        Return (?s3[length s := Some (?d2\<lparr>nDataLength := ?L, data := (data ?d2)[nat ?L := NUL]\<rparr>)],
                length s)"
      using L0 l2 by (intro SetLength_ok) (simp_all add: GetData_snoc)
    have dat: "(data ?d2)[nat ?L := NUL] = content da @ content db @ [NUL]"
      using concat_data [of "content da" "nat ?la" "content db" "nat ?lb" "data ?new"] lnew Da Db
      by (simp add: content_def nat_add_distrib)
    have "Concatenate M ?s0 ?N (Payload a 0) ?la (Payload b 0) ?lb =
        Return (?s3[length s := Some (?d2\<lparr>nDataLength := ?L, data := (data ?d2)[nat ?L := NUL]\<rparr>)],
                length s)"
      unfolding Concatenate_def Let_def ti GetBuffer_n_def ReleaseBufferSetLength_def
      using pw c1' c2' sl by simp
    then show "operator_plus M s a b =
              Return (s @ [Some \<lparr>pStringMgr = Clone M (pStringMgr dn),
                                   nDataLength = nDataLength da + nDataLength db,
                                   nAllocLength = nDataLength da + nDataLength db,
                                   nRefs = 1,
                                   data = content da @ content db @ [NUL]\<rparr>],
                      length s)"
      using a b ctor dat by (simp add: operator_plus_def list_update_append)
  }
  {
    assume over: "INT_MAX < ?L"
    have "?L \<le> 2 * INT_MAX" using Da Db by simp
    then have "to_int ?L = ?L - 4294967296"
      using over by (intro to_int_wrap) (simp_all add: INT_MAX_def)
    then have "to_int ?L < 0" using \<open>?L \<le> 2 * INT_MAX\<close> by (simp add: INT_MAX_def)
    then have "Concatenate M ?s0 ?N (Payload a 0) ?la (Payload b 0) ?lb =
        Throw InvalidArgument (?s0, ?N)"
      by (simp add: Concatenate_def Let_def GetBuffer_n_def PrepareWrite_negative)
    moreover have "destroy ?s0 ?N = Some s"
      using Release_shared [OF g0 sh] undo by (simp add: destroy_def)
    ultimately show "operator_plus M s a b = Throw InvalidArgument s"
      using a b ctor by (simp add: operator_plus_def)
  }
qed

theorem concatenation_witness:
  "buf_ok (str ''ab'' 1) \<and> buf_ok (str ''cd'' 2) \<and> buf_ok nil0 \<and>
   operator_plus mgr0 [Some nil0, Some (str ''ab'' 1), Some (str ''cd'' 2)] 1 2
     = Return ([Some nil0, Some (str ''ab'' 1), Some (str ''cd'' 2), Some (str ''abcd'' 1)], 3) \<and>
   operator_plus mgr0 [Some nil0, Some (str ''ab'' 1)] 1 1
     = Return ([Some nil0, Some (str ''ab'' 1), Some (str ''abab'' 1)], 2) \<and>
   INT_MAX < nDataLength full + nDataLength full \<and>
   operator_plus mgr0 [Some nil0, Some full] 1 1 = Throw InvalidArgument [Some nil0, Some full]"
proof -
  have ok: "buf_ok (str ''ab'' 1)" "buf_ok (str ''cd'' 2)" "buf_ok nil0" "buf_ok full"
    by (simp_all add: buf_ok_def str_def nil0_def full_def INT_MAX_def NUL_def nth_append)
  have 1: "operator_plus mgr0 [Some nil0, Some (str ''ab'' 1), Some (str ''cd'' 2)] 1 2
     = Return ([Some nil0, Some (str ''ab'' 1), Some (str ''cd'' 2), Some (str ''abcd'' 1)], 3)"
    using concatenation [of "[Some nil0, Some (str ''ab'' 1), Some (str ''cd'' 2)]" 1 "str ''ab'' 1"
        2 "str ''cd'' 2" mgr0 nil0] ok
    by (simp add: GetData_def mgr0_def nil0_def str_def content_def INT_MAX_def)
  have 2: "operator_plus mgr0 [Some nil0, Some (str ''ab'' 1)] 1 1
     = Return ([Some nil0, Some (str ''ab'' 1), Some (str ''abab'' 1)], 2)"
    using concatenation [of "[Some nil0, Some (str ''ab'' 1)]" 1 "str ''ab'' 1"
        1 "str ''ab'' 1" mgr0 nil0] ok
    by (simp add: GetData_def mgr0_def nil0_def str_def content_def INT_MAX_def)
  have 3: "INT_MAX < nDataLength full + nDataLength full"
    by (simp add: full_def INT_MAX_def)
  have 4: "operator_plus mgr0 [Some nil0, Some full] 1 1 = Throw InvalidArgument [Some nil0, Some full]"
    using concatenation [of "[Some nil0, Some full]" 1 full 1 full mgr0 nil0] ok 3
    by (simp add: GetData_def mgr0_def nil0_def)
  show ?thesis using ok 1 2 3 4 by simp
qed

section \<open>Assignment\<close>

text \<open>
  C3, as amended.  For an assignment between handles of distinct buffers: when the target
  is not locked, both buffers have the same manager, the source is not locked and the
  manager clones to itself, the assignment shares (\<^verbatim>\<open>AddRef\<close> on the source,
  \<^verbatim>\<open>Release\<close> on the old target).  When the target is locked or the managers differ
  the assignment never shares: the source buffer is left as it was, count included, and
  the target handle ends on a buffer with the source's characters, which is the target's
  own buffer, written in place, when that buffer is unshared and large enough.  The copy
  returns when the manager serves every request and the target's length is below
  \<^verbatim>\<open>INT_MAX\<close>.
\<close>

theorem assignment:
  assumes src: "GetData s src = Some ds" and tgt: "GetData s h = Some dt"
    and distinct: "src \<noteq> h" and oks: "buf_ok ds" and okt: "buf_ok dt"
    and nil: "GetData s (NilString M (pStringMgr dt)) = Some dn"
    and nilm: "pStringMgr dn = pStringMgr dt" and nil0: "nDataLength dn = 0" and okn: "buf_ok dn"
  shows "(\<not> IsLocked dt \<and> pStringMgr ds = pStringMgr dt \<and>
          \<not> IsLocked ds \<and> Clone M (pStringMgr ds) = pStringMgr ds \<longrightarrow>
            assign M s h src =
              Return ((s[src := Some (AddRef ds)])
                        [h := (if nRefs dt \<le> 1 then None
                               else Some (dt\<lparr>nRefs := nRefs dt - 1\<rparr>))], src)) \<and>
         ((IsLocked dt \<or> pStringMgr ds \<noteq> pStringMgr dt) \<and>
          assign M s h src = Return (s', h') \<longrightarrow>
            h' \<noteq> src \<and> GetData s' src = Some ds \<and>
            map_option content (GetData s' h') = Some (content ds) \<and>
            (nDataLength ds \<noteq> 0 \<and> nRefs dt \<le> 1 \<and> nDataLength ds \<le> nAllocLength dt \<longrightarrow>
               h' = h \<and> length s' = length s)) \<and>
         ((IsLocked dt \<or> pStringMgr ds \<noteq> pStringMgr dt) \<and> (\<forall>m k. Admits M m k) \<and>
          nDataLength dt < INT_MAX \<longrightarrow>
            returned (assign M s h src) \<noteq> None)"
proof (intro conjI impI)
  assume c: "\<not> IsLocked dt \<and> pStringMgr ds = pStringMgr dt \<and>
          \<not> IsLocked ds \<and> Clone M (pStringMgr ds) = pStringMgr ds"
  have ls: "src < length s" using src by (rule GetData_lt)
  have "GetData (s[src := Some (AddRef ds)]) h = Some dt"
    using tgt distinct by (simp add: GetData_upd)
  note rel = Release_eq [OF this]
  have c1: "\<not> IsLocked ds" and c2: "Clone M (pStringMgr ds) = pStringMgr ds"
    using c by blast+
  have cd: "CloneData M s src = Return (s[src := Some (AddRef ds)], src)"
    by (rule CloneData_share [OF src c1 c2])
  have br: "\<not> (IsLocked dt \<or> pStringMgr ds \<noteq> pStringMgr dt)" using c by simp
  show "assign M s h src =
              Return ((s[src := Some (AddRef ds)])
                        [h := (if nRefs dt \<le> 1 then None
                               else Some (dt\<lparr>nRefs := nRefs dt - 1\<rparr>))], src)"
    using src tgt distinct br by (simp add: assign_def cd rel)
next
  assume c: "(IsLocked dt \<or> pStringMgr ds \<noteq> pStringMgr dt) \<and> assign M s h src = Return (s', h')"
  then have ret: "SetString M s h (Payload src 0) (nDataLength ds) = Return (s', h')"
    using src tgt distinct by (auto simp: assign_def)
  let ?N = "NilString M (pStringMgr dt)"
  have all: "h' \<noteq> src \<and> GetData s' src = Some ds \<and>
      map_option content (GetData s' h') = Some (content ds) \<and>
      (nDataLength ds \<noteq> 0 \<and> nRefs dt \<le> 1 \<and> nDataLength ds \<le> nAllocLength dt \<longrightarrow>
         h' = h \<and> length s' = length s)"
  proof (cases "nDataLength ds = 0")
    case False
    show ?thesis
      by (rule SetString_foreign_Return [OF src tgt distinct oks okt False ret]) simp
  next
    case True
    then have e: "Empty M s h = Return (s', h')" using ret by (simp add: Empty_SetString)
    have cs: "content ds = []" using True by (simp add: content_def)
    show ?thesis
    proof (rule Empty_Return [OF tgt okt nil nil0 okn], goal_cases)
      case (1 s'' h'' d')
      then have eq: "s'' = s'" "h'' = h'" using e by simp_all
      note E = 1 [unfolded eq]
      have nN: "src \<noteq> ?N" if "\<not> IsLocked dt"
      proof
        assume "src = ?N"
        then have "ds = dn" using src nil by simp
        then show False using c that nilm by simp
      qed
      have "h' \<noteq> src" using E(6) distinct nN by auto
      moreover have "GetData s' src = Some ds"
      proof (cases "h' = h")
        case True
        show ?thesis
        proof (cases "src = ?N")
          case True
          then show ?thesis using E(9) \<open>h' = h\<close> distinct src nil by auto
        next
          case False
          then show ?thesis using E(5) [of src] distinct src by simp
        qed
      next
        case False
        then have "\<not> IsLocked dt" using E(6) by auto
        then show ?thesis using E(5) [of src] nN distinct src by simp
      qed
      ultimately show ?case using E(2,4) cs True by simp
    qed
  qed
  show "h' \<noteq> src" "GetData s' src = Some ds"
    "map_option content (GetData s' h') = Some (content ds)"
    using all by simp_all
  assume "nDataLength ds \<noteq> 0 \<and> nRefs dt \<le> 1 \<and> nDataLength ds \<le> nAllocLength dt"
  then show "h' = h" "length s' = length s" using all by simp_all
next
  assume c: "(IsLocked dt \<or> pStringMgr ds \<noteq> pStringMgr dt) \<and> (\<forall>m k. Admits M m k) \<and>
          nDataLength dt < INT_MAX"
  have "\<exists>s' h'. SetString M s h (Payload src 0) (nDataLength ds) = Return (s', h')"
  proof (cases "nDataLength ds = 0")
    case True
    show ?thesis
      by (rule Empty_Return [OF tgt okt nil nil0 okn]) (auto simp: True Empty_SetString)
  next
    case False
    show ?thesis
      using c by (intro SetString_foreign_returns [OF src tgt distinct oks okt False]) simp_all
  qed
  then show "returned (assign M s h src) \<noteq> None"
    using c src tgt distinct by (auto simp: assign_def returned_def)
qed

theorem assignment_witness:
  "buf_ok (str ''ab'' 1) \<and> buf_ok (str ''xyz'' 1) \<and> buf_ok (str ''xyz'' (- 1)) \<and> buf_ok nil0 \<and>
   \<not> IsLocked (str ''xyz'' 1) \<and> IsLocked (str ''xyz'' (- 1)) \<and>
   assign mgr0 [Some nil0, Some (str ''ab'' 1), Some (str ''xyz'' 1)] 2 1
     = Return ([Some nil0, Some (str ''ab'' 2), None], 1) \<and>
   assign mgr0 [Some nil0, Some (str ''ab'' 1), Some (str ''xyz'' (- 1))] 2 1
     = Return ([Some nil0, Some (str ''ab'' 1),
                Some \<lparr>pStringMgr = 0, nDataLength = 2, nAllocLength = 3, nRefs = - 1,
                       data = ''ab'' @ [NUL, NUL]\<rparr>], 2) \<and>
   content \<lparr>pStringMgr = 0, nDataLength = 2, nAllocLength = 3, nRefs = - 1,
            data = ''ab'' @ [NUL, NUL]\<rparr> = content (str ''ab'' 1)"
proof -
  let ?s = "[Some nil0, Some (str ''ab'' 1), Some (str ''xyz'' 1)]"
  let ?t = "[Some nil0, Some (str ''ab'' 1), Some (str ''xyz'' (- 1))]"
  let ?r = "[Some nil0, Some (str ''ab'' 1),
                Some \<lparr>pStringMgr = 0, nDataLength = 2, nAllocLength = 3, nRefs = - 1,
                       data = ''ab'' @ [NUL, NUL]\<rparr>]"
  have ok: "buf_ok (str ''ab'' 1)" "buf_ok (str ''xyz'' 1)" "buf_ok (str ''xyz'' (- 1))" "buf_ok nil0"
    by (simp_all add: buf_ok_def str_def nil0_def INT_MAX_def NUL_def)
  have lk: "\<not> IsLocked (str ''xyz'' 1)" "IsLocked (str ''xyz'' (- 1))" "\<not> IsLocked (str ''ab'' 1)"
    by (simp_all add: IsLocked_def str_def)
  have 1: "assign mgr0 ?s 2 1 = Return ([Some nil0, Some (str ''ab'' 2), None], 1)"
    using assignment [of ?s 1 "str ''ab'' 1" 2 "str ''xyz'' 1" mgr0 nil0] ok lk
    by (simp add: GetData_def mgr0_def nil0_def str_def AddRef_def)
  have 2: "assign mgr0 ?t 2 1 = Return (?r, 2)" by code_simp
  have 3: "map_option content (GetData ?r 2) = Some (content (str ''ab'' 1))"
    using assignment [of ?t 1 "str ''ab'' 1" 2 "str ''xyz'' (- 1)" mgr0 nil0 ?r 2] ok lk 2
    by (simp add: GetData_def mgr0_def nil0_def str_def)
  show ?thesis using ok lk 1 2 3 by (simp add: GetData_def)
qed

text \<open>
  C3 as stated has the copy go to a freshly allocated buffer.  Assigning \<open>ab\<close> to a
  locked target of capacity 3 writes into the target's own buffer: the handle and the
  number of buffers in the store are unchanged.
\<close>

theorem assignment_to_locked_counterexample:
  "IsLocked (str ''xyz'' (- 1)) \<and>
   assign mgr0 [Some nil0, Some (str ''ab'' 1), Some (str ''xyz'' (- 1))] 2 1
     = Return ([Some nil0, Some (str ''ab'' 1),
                Some \<lparr>pStringMgr = 0, nDataLength = 2, nAllocLength = 3, nRefs = - 1,
                       data = ''ab'' @ [NUL, NUL]\<rparr>], 2) \<and>
   length [Some nil0, Some (str ''ab'' 1),
           Some \<lparr>pStringMgr = 0, nDataLength = 2, nAllocLength = 3, nRefs = - 1,
                  data = ''ab'' @ [NUL, NUL]\<rparr>]
     = length [Some nil0, Some (str ''ab'' 1), Some (str ''xyz'' (- 1))]"
  by code_simp

section \<open>The invariant of the payload\<close>

text \<open>
  C9. The invariant \<open>handle_ok\<close> of a string object: every buffer of the store is well
  formed (\<open>nDataLength \<le> nAllocLength\<close>, a payload of \<open>nAllocLength + 1\<close> units, the
  terminator at index \<open>nDataLength\<close>), the handle is attached to one of them, and the nil
  buffer of every manager is in the store with no capacity and its count above 1, not
  counting the reference of the handle.  The last conjunct spells out what this says about
  the attached buffer.

  The constructors establish the invariant from a store of well-formed buffers with the
  nil buffers in place.  \<^verbatim>\<open>operator=\<close>, the \<^verbatim>\<open>Append\<close> family, \<^verbatim>\<open>SetString\<close>, \<^verbatim>\<open>SetAt\<close>,
  \<^verbatim>\<open>Truncate\<close>, \<^verbatim>\<open>Empty\<close>, \<^verbatim>\<open>FreeExtra\<close> and \<^verbatim>\<open>GetBuffer\<close> keep it.  Characters
  written through the pointer of \<^verbatim>\<open>GetBuffer\<close> leave a state \<open>raw_ok\<close>, in which the
  attached buffer need not have its terminator; \<^verbatim>\<open>ReleaseBuffer\<close> and
  \<^verbatim>\<open>ReleaseBufferSetLength\<close> lead from every such state back to the invariant.

  \<open>ok_after\<close> covers the three outcomes of a call.  After a normal return the invariant
  holds.  A call that throws \<^verbatim>\<open>OutOfMemory\<close> or \<^verbatim>\<open>InvalidArgument\<close> leaves the state it
  was called in.  The call does not leave defined behaviour under the condition given
  with it: strings shorter than \<^verbatim>\<open>INT_MAX\<close> where the buffer may be forked or cloned,
  and sources that can be read; buffer release, \<^verbatim>\<open>Empty\<close>, \<^verbatim>\<open>FreeExtra\<close> and
  \<^verbatim>\<open>AppendChar\<close> need no condition.  A length \<open>n\<close> passed to an operation is an
  \<^verbatim>\<open>int\<close>, so \<open>n \<le> INT_MAX\<close>.
\<close>

theorem invariant_after_public_operations:
  assumes n: "n \<le> INT_MAX"
  shows "(heap_ok s \<and> nil_ok M s \<longrightarrow>
            handle_ok M (CSimpleStringT M s m) \<and>
            ok_after M (short s src) s (CSimpleStringT_copy M s src) \<and>
            ok_after M (readable s p n) s (CSimpleStringT_n M s p n m) \<and>
            ok_after M (terminated s p) s (CSimpleStringT_sz M s p m)) \<and>
         (handle_ok M (s, h) \<longrightarrow>
            ok_after M (short s h \<and> short s src) (s, h) (assign M s h src) \<and>
            ok_after M (short s h \<and> terminated s p) (s, h) (assign_sz M s h p) \<and>
            ok_after M (short s h \<and> readable s p n) (s, h) (Append M s h p n) \<and>
            ok_after M (short s h \<and> terminated s p) (s, h) (Append_sz M s h p) \<and>
            ok_after M (short s h \<and> GetData s src \<noteq> None) (s, h) (Append_str M s h src) \<and>
            ok_after M True (s, h) (AppendChar M s h c) \<and>
            ok_after M (short s h \<and> readable s p n) (s, h) (SetString M s h p n) \<and>
            ok_after M (short s h \<and> terminated s p) (s, h) (SetString_sz M s h p) \<and>
            ok_after M (short s h) (s, h) (SetAt M s h i c) \<and>
            ok_after M (short s h) (s, h) (Truncate M s h n) \<and>
            ok_after M True (s, h) (Empty M s h) \<and>
            ok_after M True (s, h) (FreeExtra M s h) \<and>
            ok_after M (short s h) (s, h) (GetBuffer M s h) \<and>
            ok_after M (short s h) (s, h) (GetBuffer_n M s h n)) \<and>
         (handle_ok M (s, h) \<and> GetData s h = Some d \<and> length cs = length (data d) \<longrightarrow>
            raw_ok M (s[h := Some (d\<lparr>data := cs\<rparr>)], h)) \<and>
         (raw_ok M (s, h) \<longrightarrow>
            ok_after M True (s, h) (ReleaseBuffer s h k) \<and>
            ok_after M True (s, h) (ReleaseBufferSetLength s h k)) \<and>
         (handle_ok M (s, h) \<longrightarrow>
            (case GetData s h of
               None \<Rightarrow> False
             | Some d' \<Rightarrow> nDataLength d' \<le> nAllocLength d' \<and>
                          nat (nDataLength d') < length (data d') \<and>
                          data d' ! nat (nDataLength d') = NUL))"
proof (intro conjI impI)
  assume a: "heap_ok s \<and> nil_ok M s"
  then have hs: "heap_ok s" and nil: "nil_ok M s" by simp_all
  show "handle_ok M (CSimpleStringT M s m)" by (rule CSimpleStringT_handle_ok [OF hs nil])
  show "ok_after M (short s src) s (CSimpleStringT_copy M s src)"
    by (rule constructors_after [OF hs nil n])
  show "ok_after M (readable s p n) s (CSimpleStringT_n M s p n m)"
    by (rule constructors_after [OF hs nil n])
  show "ok_after M (terminated s p) s (CSimpleStringT_sz M s p m)"
    by (rule constructors_after [OF hs nil n])
next
  assume "handle_ok M (s, h) \<and> GetData s h = Some d \<and> length cs = length (data d)"
  then show "raw_ok M (s[h := Some (d\<lparr>data := cs\<rparr>)], h)" by (auto intro: raw_write)
next
  assume r: "raw_ok M (s, h)"
  show "ok_after M True (s, h) (ReleaseBuffer s h k)" by (rule release_after [OF r])
  show "ok_after M True (s, h) (ReleaseBufferSetLength s h k)" by (rule release_after [OF r])
next
  assume ok: "handle_ok M (s, h)"
  note A = mutators_after [OF ok n]
  show "ok_after M (short s h \<and> short s src) (s, h) (assign M s h src)" by (rule A)
  show "ok_after M (short s h \<and> terminated s p) (s, h) (assign_sz M s h p)" by (rule A)
  show "ok_after M (short s h \<and> readable s p n) (s, h) (Append M s h p n)" by (rule A)
  show "ok_after M (short s h \<and> terminated s p) (s, h) (Append_sz M s h p)" by (rule A)
  show "ok_after M (short s h \<and> GetData s src \<noteq> None) (s, h) (Append_str M s h src)" by (rule A)
  show "ok_after M True (s, h) (AppendChar M s h c)" by (rule A)
  show "ok_after M (short s h \<and> readable s p n) (s, h) (SetString M s h p n)" by (rule A)
  show "ok_after M (short s h \<and> terminated s p) (s, h) (SetString_sz M s h p)" by (rule A)
  show "ok_after M (short s h) (s, h) (SetAt M s h i c)" by (rule A)
  show "ok_after M (short s h) (s, h) (Truncate M s h n)" by (rule A)
  show "ok_after M True (s, h) (Empty M s h)" by (rule A)
  show "ok_after M True (s, h) (FreeExtra M s h)" by (rule A)
  show "ok_after M (short s h) (s, h) (GetBuffer M s h)" by (rule GetBuffer_after [OF ok])
  show "ok_after M (short s h) (s, h) (GetBuffer_n M s h n)" by (rule GetBuffer_n_after [OF ok n])
  show "case GetData s h of
          None \<Rightarrow> False
        | Some d' \<Rightarrow> nDataLength d' \<le> nAllocLength d' \<and>
                     nat (nDataLength d') < length (data d') \<and>
                     data d' ! nat (nDataLength d') = NUL"
    by (rule handle_ok_buffer [OF ok])
qed

theorem invariant_after_public_operations_witness:
  "(1 :: int) \<le> INT_MAX \<and>
   heap_ok [Some nil0] \<and> nil_ok mgr0 [Some nil0] \<and>
   CSimpleStringT mgr0 [Some nil0] 0 = ([Some (AddRef nil0)], 0) \<and>
   handle_ok mgr0 ([Some (AddRef nil0)], 0) \<and>
   handle_ok mgr0 ([Some nil0, Some (str ''hello'' 2), Some (str ''ab'' 1)], 1) \<and>
   short [Some nil0, Some (str ''hello'' 2), Some (str ''ab'' 1)] 1 \<and>
   SetAt mgr0 [Some nil0, Some (str ''hello'' 2), Some (str ''ab'' 1)] 1 0 (CHR ''H'')
     = Return ([Some nil0, Some (str ''hello'' 1), Some (str ''ab'' 1), Some (str ''Hello'' 1)], 3) \<and>
   handle_ok mgr0
     ([Some nil0, Some (str ''hello'' 1), Some (str ''ab'' 1), Some (str ''Hello'' 1)], 3) \<and>
   data (str ''Hello'' 1) ! nat (nDataLength (str ''Hello'' 1)) = NUL \<and>
   SetAt mgr0 [Some nil0, Some (str ''hello'' 2), Some (str ''ab'' 1)] 1 5 (CHR ''H'')
     = Throw InvalidArgument ([Some nil0, Some (str ''hello'' 2), Some (str ''ab'' 1)], 1) \<and>
   handle_ok mgr0 ([Some nil0, Some (str ''hello'' 2), Some (str ''ab'' 1)], 2) \<and>
   length ''xyz'' = length (data (str ''ab'' 1)) \<and>
   \<not> heap_ok [Some nil0, Some (str ''hello'' 2), Some ((str ''ab'' 1)\<lparr>data := ''xyz''\<rparr>)] \<and>
   raw_ok mgr0
     ([Some nil0, Some (str ''hello'' 2), Some ((str ''ab'' 1)\<lparr>data := ''xyz''\<rparr>)], 2) \<and>
   ReleaseBuffer
     [Some nil0, Some (str ''hello'' 2), Some ((str ''ab'' 1)\<lparr>data := ''xyz''\<rparr>)] 2 (- 1)
     = Return ([Some nil0, Some (str ''hello'' 2),
                Some \<lparr>pStringMgr = 0, nDataLength = 2, nAllocLength = 2, nRefs = 1,
                       data = [CHR ''x'', CHR ''y'', NUL]\<rparr>], 2) \<and>
   handle_ok mgr0
     ([Some nil0, Some (str ''hello'' 2),
       Some \<lparr>pStringMgr = 0, nDataLength = 2, nAllocLength = 2, nRefs = 1,
              data = [CHR ''x'', CHR ''y'', NUL]\<rparr>], 2)"
proof -
  let ?s = "[Some nil0, Some (str ''hello'' 2), Some (str ''ab'' 1)]"
  let ?r = "[Some nil0, Some (str ''hello'' 1), Some (str ''ab'' 1), Some (str ''Hello'' 1)]"
  let ?w = "[Some nil0, Some (str ''hello'' 2), Some ((str ''ab'' 1)\<lparr>data := ''xyz''\<rparr>)]"
  let ?t = "[Some nil0, Some (str ''hello'' 2),
             Some \<lparr>pStringMgr = 0, nDataLength = 2, nAllocLength = 2, nRefs = 1,
                    data = [CHR ''x'', CHR ''y'', NUL]\<rparr>]"
  have n: "(1 :: int) \<le> INT_MAX" by (simp add: INT_MAX_def)
  have c0: "heap_ok [Some nil0]" "nil_ok mgr0 [Some nil0]"
    by (simp_all add: heap_ok_def nil_ok_def buf_ok_def nil0_def mgr0_def GetData_def
        INT_MAX_def NUL_def)
  have e0: "CSimpleStringT mgr0 [Some nil0] 0 = ([Some (AddRef nil0)], 0)"
    by (simp add: CSimpleStringT_def mgrGetNilString_def mgr0_def GetData_def Let_def)
  have o0: "handle_ok mgr0 ([Some (AddRef nil0)], 0)"
    using invariant_after_public_operations [OF n,
        where M = mgr0 and s = "[Some nil0]" and m = 0] c0 e0
    by simp
  have hs: "heap_ok ?s"
    by (simp add: heap_ok_def buf_ok_def nil0_def str_def INT_MAX_def NUL_def)
  have c1: "handle_ok mgr0 (?s, 1)" "handle_ok mgr0 (?s, 2)"
    using hs
    by (simp_all add: handle_ok_def state_ok_def pinned_def mgr0_def GetData_def nil0_def)
  have sh: "short ?s 1" by (simp add: short_def GetData_def str_def INT_MAX_def)
  have e1: "SetAt mgr0 ?s 1 0 (CHR ''H'') = Return (?r, 3)" by code_simp
  have e2: "SetAt mgr0 ?s 1 5 (CHR ''H'') = Throw InvalidArgument (?s, 1)" by code_simp
  note T1 = invariant_after_public_operations [OF n,
      where M = mgr0 and s = ?s and h = 1 and i = 0 and c = "CHR ''H''"]
  have o1: "handle_ok mgr0 (?r, 3)"
    using T1 c1(1) e1 by (simp add: ok_after_def)
  have o2: "data (str ''Hello'' 1) ! nat (nDataLength (str ''Hello'' 1)) = NUL"
    using invariant_after_public_operations [OF n, where M = mgr0 and s = ?r and h = 3] o1
    by (simp add: GetData_def)
  have l: "length ''xyz'' = length (data (str ''ab'' 1))" by (simp add: str_def)
  have g: "GetData ?s 2 = Some (str ''ab'' 1)" by (simp add: GetData_def)
  have w: "\<not> heap_ok ?w" by (simp add: heap_ok_def buf_ok_def str_def NUL_def)
  have o3: "raw_ok mgr0 (?w, 2)"
    using invariant_after_public_operations [OF n,
        where M = mgr0 and s = ?s and h = 2 and d = "str ''ab'' 1" and cs = "''xyz''"]
      c1(2) g l
    by simp
  have e3: "ReleaseBuffer ?w 2 (- 1) = Return (?t, 2)" by code_simp
  have o4: "handle_ok mgr0 (?t, 2)"
    using invariant_after_public_operations [OF n,
        where M = mgr0 and s = ?w and h = 2 and k = "- 1"] o3 e3
    by (simp add: ok_after_def)
  show ?thesis
    using n c0 e0 o0 c1 sh e1 o1 o2 e2 l w o3 e3 o4 by simp
qed

end
